theory Spec2Isabelle
  imports Complex_Main "HOL-Library.Sublist"
begin

section \<open>ESP8266HttpRead: the data model\<close>

text \<open>
  The class \<^verbatim>\<open>ESP8266HttpRead\<close> (ESP8266HttpRead.h) removes the messages that the
  ESP8266 WiFi shield inserts into the bytes of an HTTP response. Its private state is a
  pointer to the client, a timeout, the state of the command recogniser, a buffer of 20
  ints and two indices into it.
\<close>

datatype CmdState =
    CMD_WAIT
  | CMD_NL | CMD_PLUS | CMD_I | CMD_P | CMD_D | CMD_COMMA
  | CMD_0 | CMD_0_COMMA | CMD_0_C | CMD_0_CL | CMD_0_CLO | CMD_0_CLOS | CMD_0_CLOSE

text \<open>
  \<open>pEsp8266Client\<close> says whether the pointer \<^verbatim>\<open>_pEsp8266Client\<close> is non-null. The client
  it points to lives outside the object: it is the list of the bytes the client has still
  to deliver, passed to and returned by every operation that reads.
  \<open>cmdBuf\<close> is \<^verbatim>\<open>int _cmdBuf[20]\<close>. The code uses an index without a test, and C++ gives
  no meaning to an access outside the 20 entries. Here every access compares the index
  with the 20 entries, and a call that accesses an entry outside them ends there, in a
  fault: \<open>LoadOutOfBounds i\<close> for a read of \<^verbatim>\<open>_cmdBuf[i]\<close>, \<open>StoreOutOfBounds i\<close> for an
  assignment to it. What the code does from there on is not described.
\<close>

record ESP8266HttpRead =
  pEsp8266Client :: bool
  timeoutMs :: nat
  cmdState :: CmdState
  cmdBuf :: "int list"
  nextIn :: int
  nextOut :: int

datatype fault = LoadOutOfBounds int | StoreOutOfBounds int

definition READ_ERROR :: int where "READ_ERROR = - 3"
definition READ_TIMEOUT :: int where "READ_TIMEOUT = - 2"
definition READ_CLOSED :: int where "READ_CLOSED = - 1"

definition CMD_BUF_SIZE :: int where "CMD_BUF_SIZE = 20"

section \<open>begin, end and the recogniser\<close>

text \<open>
  \<^verbatim>\<open>begin\<close> binds the client and the timeout and resets the recogniser; it always
  returns true, which the model leaves out. \<^verbatim>\<open>end\<close> clears the pointer and nothing
  else.
\<close>

definition begin_read :: "ESP8266HttpRead \<Rightarrow> nat \<Rightarrow> ESP8266HttpRead" where
  "begin_read s t =
     s\<lparr>pEsp8266Client := True, timeoutMs := t,
       cmdState := CMD_WAIT, nextIn := 0, nextOut := 0\<rparr>"

definition end_read :: "ESP8266HttpRead \<Rightarrow> ESP8266HttpRead" where
  "end_read s = s\<lparr>pEsp8266Client := False\<rparr>"

text \<open>
  \<^verbatim>\<open>advanceIf\<close> looks at the byte just stored at \<^verbatim>\<open>_cmdBuf[_nextIn]\<close>. It is only
  called by \<^verbatim>\<open>read\<close>, after the store at that index.
\<close>

definition advanceIf :: "char \<Rightarrow> CmdState \<Rightarrow> ESP8266HttpRead \<Rightarrow> ESP8266HttpRead" where
  "advanceIf wantChar newState s =
     (if char_of (cmdBuf s ! nat (nextIn s)) = wantChar
      then s\<lparr>cmdState := newState, nextIn := nextIn s + 1, nextOut := nextIn s + 1\<rparr>
      else s\<lparr>cmdState := CMD_WAIT, nextIn := nextIn s + 1, nextOut := 0\<rparr>)"

text \<open>
  The \<^verbatim>\<open>switch (_cmdState)\<close> of \<^verbatim>\<open>read\<close>. \<open>None\<close> is the
  \<^verbatim>\<open>return READ_CLOSED\<close> of the case \<^verbatim>\<open>CMD_0_CLOSE\<close>; \<open>Some\<close> is the state at the
  \<^verbatim>\<open>break\<close>. The \<^verbatim>\<open>default\<close> case of the source is for a value of the byte
  \<^verbatim>\<open>_cmdState\<close> outside the enumeration, which no assignment of the class produces.
  The state \<^verbatim>\<open>CMD_0_\<close> of the source is written \<open>CMD_0_COMMA\<close>.
\<close>

definition cmd_switch :: "ESP8266HttpRead \<Rightarrow> ESP8266HttpRead option" where
  "cmd_switch s =
     (case cmdState s of
        CMD_WAIT \<Rightarrow>
          (if char_of (cmdBuf s ! nat (nextIn s)) = CHR 0x0A
           then Some (s\<lparr>cmdState := CMD_NL, nextIn := nextIn s + 1, nextOut := nextIn s + 1\<rparr>)
           else if char_of (cmdBuf s ! nat (nextIn s)) = CHR ''0''
           then Some (s\<lparr>cmdState := CMD_0, nextIn := nextIn s + 1, nextOut := nextIn s + 1\<rparr>)
           else Some (s\<lparr>cmdState := CMD_WAIT, nextIn := nextIn s + 1, nextOut := 0\<rparr>))
      | CMD_NL \<Rightarrow> Some (advanceIf CHR ''+'' CMD_PLUS s)
      | CMD_PLUS \<Rightarrow> Some (advanceIf CHR ''I'' CMD_I s)
      | CMD_I \<Rightarrow> Some (advanceIf CHR ''P'' CMD_P s)
      | CMD_P \<Rightarrow> Some (advanceIf CHR ''D'' CMD_D s)
      | CMD_D \<Rightarrow> Some (advanceIf CHR '','' CMD_COMMA s)
      | CMD_COMMA \<Rightarrow>
          (if char_of (cmdBuf s ! nat (nextIn s)) \<noteq> CHR '':''
           then Some (s\<lparr>cmdState := CMD_COMMA, nextIn := nextIn s + 1, nextOut := nextIn s + 1\<rparr>)
           else Some (s\<lparr>cmdState := CMD_WAIT, nextIn := 0, nextOut := 0\<rparr>))
      | CMD_0 \<Rightarrow> Some (advanceIf CHR '','' CMD_0_COMMA s)
      | CMD_0_COMMA \<Rightarrow> Some (advanceIf CHR ''C'' CMD_0_C s)
      | CMD_0_C \<Rightarrow> Some (advanceIf CHR ''L'' CMD_0_CL s)
      | CMD_0_CL \<Rightarrow> Some (advanceIf CHR ''O'' CMD_0_CLO s)
      | CMD_0_CLO \<Rightarrow> Some (advanceIf CHR ''S'' CMD_0_CLOS s)
      | CMD_0_CLOS \<Rightarrow> Some (advanceIf CHR ''E'' CMD_0_CLOSE s)
      | CMD_0_CLOSE \<Rightarrow>
          (if char_of (cmdBuf s ! nat (nextIn s)) = CHR ''D''
           then None
           else Some (s\<lparr>cmdState := CMD_WAIT, nextIn := nextIn s + 1, nextOut := 0\<rparr>)))"

section \<open>read\<close>

text \<open>
  \<open>cmd_reset\<close> is the statement that empties the buffer when no command is being
  recognised. \<open>read_loop\<close> is the \<^verbatim>\<open>while (true)\<close> loop of \<^verbatim>\<open>read\<close>.

  The client is the list of the bytes it will ever deliver: \<^verbatim>\<open>available()\<close> holds while
  the list is not empty, and \<^verbatim>\<open>read()\<close> of the client takes its head, a value in
  0..255. Once the list is empty no byte arrives any more; the wait loop polls until the
  clock has passed the deadline of the call and returns \<^verbatim>\<open>READ_TIMEOUT\<close>. The value of
  \<^verbatim>\<open>_timeoutMs\<close> only says how long that takes, so the result does not depend on it.
  Every other round of the loop either returns or takes one byte from the client, so the
  recursion is on the client's list.

  The result of a call is the fault, or the value returned with the new state of the
  object and what the client still holds.
\<close>

definition cmd_reset :: "ESP8266HttpRead \<Rightarrow> ESP8266HttpRead" where
  "cmd_reset s = (if cmdState s = CMD_WAIT then s\<lparr>nextIn := 0, nextOut := 0\<rparr> else s)"

fun read_loop ::
  "ESP8266HttpRead \<Rightarrow> char list \<Rightarrow> fault + (int \<times> ESP8266HttpRead \<times> char list)" where
  "read_loop s src =
     (if nextOut s < nextIn s then
        (if 0 \<le> nextOut s \<and> nextOut s < CMD_BUF_SIZE
         then Inr (cmdBuf s ! nat (nextOut s), s\<lparr>nextOut := nextOut s + 1\<rparr>, src)
         else Inl (LoadOutOfBounds (nextOut s)))
      else
        (let s1 = cmd_reset s
         in case src of
              [] \<Rightarrow> Inr (READ_TIMEOUT, s1, [])
            | b # rest \<Rightarrow>
                (if 0 \<le> nextIn s1 \<and> nextIn s1 < CMD_BUF_SIZE then
                   (let s2 = s1\<lparr>cmdBuf := (cmdBuf s1)[nat (nextIn s1) := of_char b]\<rparr>
                    in case cmd_switch s2 of
                         None \<Rightarrow> Inr (READ_CLOSED, s2, rest)
                       | Some s3 \<Rightarrow> read_loop s3 rest)
                 else Inl (StoreOutOfBounds (nextIn s1)))))"

declare read_loop.simps [simp del]

definition read ::
  "ESP8266HttpRead \<Rightarrow> char list \<Rightarrow> fault + (int \<times> ESP8266HttpRead \<times> char list)" where
  "read s src =
     (if \<not> pEsp8266Client s then Inr (READ_ERROR, s, src) else read_loop s src)"

subsection \<open>Progress of a call\<close>

text \<open>
  A call of \<^verbatim>\<open>read\<close> that returns a byte has either handed out a buffered byte, and
  then the distance between the two indices has shrunk, or taken at least one byte from
  the client.
\<close>

lemma read_loop_flush:
  "nextOut s < nextIn s \<Longrightarrow>
     read_loop s src =
       (if 0 \<le> nextOut s \<and> nextOut s < CMD_BUF_SIZE
        then Inr (cmdBuf s ! nat (nextOut s), s\<lparr>nextOut := nextOut s + 1\<rparr>, src)
        else Inl (LoadOutOfBounds (nextOut s)))"
  by (simp add: read_loop.simps [of s src])

lemma read_loop_Nil:
  "\<not> nextOut s < nextIn s \<Longrightarrow> read_loop s [] = Inr (READ_TIMEOUT, cmd_reset s, [])"
  by (simp add: read_loop.simps [of s "[]"])

lemma read_loop_Cons:
  "\<not> nextOut s < nextIn s \<Longrightarrow>
     read_loop s (b # rest) =
       (let s1 = cmd_reset s in
        if 0 \<le> nextIn s1 \<and> nextIn s1 < CMD_BUF_SIZE then
          (let s2 = s1\<lparr>cmdBuf := (cmdBuf s1)[nat (nextIn s1) := of_char b]\<rparr>
           in case cmd_switch s2 of
                None \<Rightarrow> Inr (READ_CLOSED, s2, rest)
              | Some s3 \<Rightarrow> read_loop s3 rest)
        else Inl (StoreOutOfBounds (nextIn s1)))"
  by (simp add: read_loop.simps [of s "b # rest"])

lemma read_loop_progress:
  "read_loop s src = Inr (ch, s', src') \<Longrightarrow>
     length src' \<le> length src \<and>
     (ch \<noteq> READ_TIMEOUT \<and> ch \<noteq> READ_CLOSED \<longrightarrow> length src' < length src \<or>
        (src' = src \<and> nat (nextIn s' - nextOut s') < nat (nextIn s - nextOut s)))"
proof (induction s src rule: read_loop.induct)
  case (1 s src)
  show ?case
  proof (cases "nextOut s < nextIn s")
    case True
    with "1.prems" show ?thesis
      by (auto simp: read_loop_flush split: if_splits)
  next
    case False
    define s1 where "s1 = cmd_reset s"
    show ?thesis
    proof (cases src)
      case Nil
      with False "1.prems" show ?thesis
        by (auto simp: read_loop_Nil)
    next
      case (Cons b rest)
      define s2 where "s2 = s1\<lparr>cmdBuf := (cmdBuf s1)[nat (nextIn s1) := of_char b]\<rparr>"
      have eq: "read_loop s (b # rest) =
          (if 0 \<le> nextIn s1 \<and> nextIn s1 < CMD_BUF_SIZE then
             (case cmd_switch s2 of
                None \<Rightarrow> Inr (READ_CLOSED, s2, rest)
              | Some s3 \<Rightarrow> read_loop s3 rest)
           else Inl (StoreOutOfBounds (nextIn s1)))"
        unfolding s2_def s1_def by (simp add: read_loop_Cons [OF False] Let_def)
      from Cons "1.prems" have inb: "0 \<le> nextIn s1 \<and> nextIn s1 < CMD_BUF_SIZE"
        by (auto simp: eq split: if_splits)
      show ?thesis
      proof (cases "cmd_switch s2")
        case None
        with Cons inb "1.prems" show ?thesis
          by (auto simp: eq)
      next
        case (Some s3)
        with Cons inb "1.prems" have "read_loop s3 rest = Inr (ch, s', src')"
          by (auto simp: eq)
        with "1.IH" [OF False s1_def Cons inb s2_def Some]
        have "length src' \<le> length rest" by simp
        with Cons show ?thesis by simp
      qed
    qed
  qed
qed

lemma read_progress:
  "read s src = Inr (ch, s', src') \<Longrightarrow>
     ch \<noteq> READ_ERROR \<Longrightarrow> ch \<noteq> READ_TIMEOUT \<Longrightarrow> ch \<noteq> READ_CLOSED \<Longrightarrow>
     length src' < length src \<or>
       (src' = src \<and> nat (nextIn s' - nextOut s') < nat (nextIn s - nextOut s))"
  using read_loop_progress [of s src ch s' src']
  by (auto simp: read_def split: if_splits)

lemma read_progress_nonneg:
  "read s src = Inr (ch, s', src') \<Longrightarrow> 0 \<le> ch \<Longrightarrow>
     length src' < length src \<or>
       (src' = src \<and> nat (nextIn s' - nextOut s') < nat (nextIn s - nextOut s))"
  by (rule read_progress) (auto simp: READ_ERROR_def READ_TIMEOUT_def READ_CLOSED_def)

section \<open>The operations built on read\<close>

text \<open>
  \<^verbatim>\<open>read(char *buf, short count)\<close> calls \<^verbatim>\<open>read()\<close> \<open>count\<close> times. The result holds
  the characters it stored in \<^verbatim>\<open>buf[0]\<close>, \<^verbatim>\<open>buf[1]\<close>, ... in this order; after a
  failure these are the characters stored before it.
\<close>

fun read_buf ::
  "nat \<Rightarrow> ESP8266HttpRead \<Rightarrow> char list \<Rightarrow>
     fault + (bool \<times> char list \<times> ESP8266HttpRead \<times> char list)" where
  "read_buf 0 s src = Inr (True, [], s, src)"
| "read_buf (Suc count) s src =
     (case read s src of
        Inl f \<Rightarrow> Inl f
      | Inr (ch, s', src') \<Rightarrow>
          if ch < 0 then Inr (False, [], s', src')
          else (case read_buf count s' src' of
                  Inl f \<Rightarrow> Inl f
                | Inr (ok, buf, s'', src'') \<Rightarrow> Inr (ok, char_of ch # buf, s'', src'')))"

text \<open>
  \<^verbatim>\<open>find\<close>: the pattern is the list of the characters before the terminating NUL,
  \<open>p\<close> is what of it is still to match. After each byte either the next character is
  expected or the whole pattern again.
\<close>

function find_loop ::
  "char list \<Rightarrow> char list \<Rightarrow> ESP8266HttpRead \<Rightarrow> char list \<Rightarrow>
     fault + (bool \<times> ESP8266HttpRead \<times> char list)" where
  "find_loop ppattern p s src =
     (case p of
        [] \<Rightarrow> Inr (True, s, src)
      | c # p' \<Rightarrow>
          (case read s src of
             Inl f \<Rightarrow> Inl f
           | Inr (ch, s', src') \<Rightarrow>
               if ch < 0 then Inr (False, s', src')
               else if char_of ch = c then find_loop ppattern p' s' src'
               else find_loop ppattern ppattern s' src'))"
  by pat_completeness auto
termination
proof (relation "measures [\<lambda>(pp, p, s, src). length src,
                          \<lambda>(pp, p, s, src). nat (nextIn s - nextOut s)]", goal_cases)
  case 1
  show ?case by simp
next
  case (2 ppattern p s src c p' x ch y s' src')
  then have "read s src = Inr (ch, s', src')" and "0 \<le> ch" by auto
  from read_progress_nonneg [OF this] show ?case by auto
next
  case (3 ppattern p s src c p' x ch y s' src')
  then have "read s src = Inr (ch, s', src')" and "0 \<le> ch" by auto
  from read_progress_nonneg [OF this] show ?case by auto
qed

declare find_loop.simps [simp del]

definition find_pattern ::
  "char list \<Rightarrow> ESP8266HttpRead \<Rightarrow> char list \<Rightarrow>
     fault + (bool \<times> ESP8266HttpRead \<times> char list)" where
  "find_pattern ppattern s src = find_loop ppattern ppattern s src"

text \<open>
  \<^verbatim>\<open>findDate\<close>. The fields of \<^verbatim>\<open>HttpDateTime\<close> are shorts; every value the parser
  stores is at most 9999. \<open>is_digit\<close> is the test \<^verbatim>\<open>'0' <= c && c <= '9'\<close>, which a
  byte above 127 fails whether \<^verbatim>\<open>char\<close> is signed or not.
\<close>

record HttpDateTime =
  daySinceSunday :: int
  year :: int
  month :: int
  day :: int
  hour :: int
  minute :: int
  second :: int

definition is_digit :: "char \<Rightarrow> bool" where
  "is_digit c \<longleftrightarrow>
     (of_char CHR ''0'' :: nat) \<le> of_char c \<and> (of_char c :: nat) \<le> of_char CHR ''9''"

definition digit_val :: "char \<Rightarrow> int" where
  "digit_val c = int (of_char c) - int (of_char CHR ''0'')"

definition day_of_week :: "char list \<Rightarrow> int option" where
  "day_of_week buf =
     (if buf ! 0 = CHR ''S'' then
        (if buf ! 1 = CHR ''u'' then Some 0
         else if buf ! 1 = CHR ''a'' then Some 6
         else None)
      else if buf ! 0 = CHR ''M'' then Some 1
      else if buf ! 0 = CHR ''T'' then
        (if buf ! 1 = CHR ''u'' then Some 2
         else if buf ! 1 = CHR ''h'' then Some 4
         else None)
      else if buf ! 0 = CHR ''W'' then Some 3
      else if buf ! 0 = CHR ''F'' then Some 5
      else None)"

definition month_of :: "char list \<Rightarrow> int option" where
  "month_of buf =
     (if buf ! 0 = CHR ''J'' then
        (if buf ! 1 = CHR ''a'' then Some 1
         else if buf ! 2 = CHR ''n'' then Some 6
         else if buf ! 2 = CHR ''l'' then Some 7
         else None)
      else if buf ! 0 = CHR ''F'' then Some 2
      else if buf ! 0 = CHR ''M'' then
        (if buf ! 2 = CHR ''r'' then Some 3
         else if buf ! 2 = CHR ''y'' then Some 5
         else None)
      else if buf ! 0 = CHR ''A'' then
        (if buf ! 1 = CHR ''p'' then Some 4
         else if buf ! 1 = CHR ''u'' then Some 8
         else None)
      else if buf ! 0 = CHR ''S'' then Some 9
      else if buf ! 0 = CHR ''O'' then Some 10
      else if buf ! 0 = CHR ''N'' then Some 11
      else if buf ! 0 = CHR ''D'' then Some 12
      else None)"

definition two_digits :: "char list \<Rightarrow> int option" where
  "two_digits buf =
     (if \<not> is_digit (buf ! 0) then None
      else if \<not> is_digit (buf ! 1) then None
      else Some (digit_val (buf ! 0) * 10 + digit_val (buf ! 1)))"

definition four_digits :: "char list \<Rightarrow> int option" where
  "four_digits buf =
     (if \<not> is_digit (buf ! 0) then None
      else if \<not> is_digit (buf ! 1) then None
      else if \<not> is_digit (buf ! 2) then None
      else if \<not> is_digit (buf ! 3) then None
      else Some (digit_val (buf ! 0) * 1000 + digit_val (buf ! 1) * 100
                 + digit_val (buf ! 2) * 10 + digit_val (buf ! 3)))"

text \<open>
  The early returns of \<^verbatim>\<open>findDate\<close>. Each of the four functions below is one kind of
  statement of the source followed by the rest \<open>k\<close> of the function:
  \<^verbatim>\<open>if (!find(...)) return false;\<close>, \<^verbatim>\<open>if (!read(buf, count)) return false;\<close>,
  \<^verbatim>\<open>if (read() < 0) return false;\<close>, and a test of the characters read that returns false
  or stores a field. \<open>dt\<close> is the date as filled so far, which the caller sees when false is
  returned. The only characters of \<^verbatim>\<open>buf\<close> that a test inspects are those written by the
  \<^verbatim>\<open>read(buf, count)\<close> just before it.
\<close>

type_synonym date_result =
  "fault + (bool \<times> HttpDateTime \<times> ESP8266HttpRead \<times> char list)"

definition find_or_fail ::
  "char list \<Rightarrow> HttpDateTime \<Rightarrow> (ESP8266HttpRead \<Rightarrow> char list \<Rightarrow> date_result) \<Rightarrow>
     ESP8266HttpRead \<Rightarrow> char list \<Rightarrow> date_result" where
  "find_or_fail ppattern dt k s src =
     (case find_pattern ppattern s src of
        Inl f \<Rightarrow> Inl f
      | Inr (found, s', src') \<Rightarrow>
          if \<not> found then Inr (False, dt, s', src') else k s' src')"

definition read_or_fail ::
  "nat \<Rightarrow> HttpDateTime \<Rightarrow> (char list \<Rightarrow> ESP8266HttpRead \<Rightarrow> char list \<Rightarrow> date_result) \<Rightarrow>
     ESP8266HttpRead \<Rightarrow> char list \<Rightarrow> date_result" where
  "read_or_fail count dt k s src =
     (case read_buf count s src of
        Inl f \<Rightarrow> Inl f
      | Inr (ok, buf, s', src') \<Rightarrow>
          if \<not> ok then Inr (False, dt, s', src') else k buf s' src')"

definition skip_or_fail ::
  "HttpDateTime \<Rightarrow> (ESP8266HttpRead \<Rightarrow> char list \<Rightarrow> date_result) \<Rightarrow>
     ESP8266HttpRead \<Rightarrow> char list \<Rightarrow> date_result" where
  "skip_or_fail dt k s src =
     (case read s src of
        Inl f \<Rightarrow> Inl f
      | Inr (ch, s', src') \<Rightarrow>
          if ch < 0 then Inr (False, dt, s', src') else k s' src')"

definition value_or_fail ::
  "int option \<Rightarrow> HttpDateTime \<Rightarrow> (int \<Rightarrow> ESP8266HttpRead \<Rightarrow> char list \<Rightarrow> date_result) \<Rightarrow>
     ESP8266HttpRead \<Rightarrow> char list \<Rightarrow> date_result" where
  "value_or_fail v dt k s src =
     (case v of None \<Rightarrow> Inr (False, dt, s, src) | Some x \<Rightarrow> k x s src)"

definition findDate :: "ESP8266HttpRead \<Rightarrow> char list \<Rightarrow> date_result" where
  "findDate s src =
    (let dt = \<lparr>daySinceSunday = - 1, year = - 1, month = - 1, day = - 1,
               hour = - 1, minute = - 1, second = - 1\<rparr>
     in
     find_or_fail ''Date: '' dt (
     read_or_fail 3 dt (\<lambda>buf.
     value_or_fail (day_of_week buf) dt (\<lambda>v. let dt = dt\<lparr>daySinceSunday := v\<rparr> in
     read_or_fail 2 dt (\<lambda>buf.
     read_or_fail 2 dt (\<lambda>buf.
     value_or_fail (two_digits buf) dt (\<lambda>v. let dt = dt\<lparr>day := v\<rparr> in
     skip_or_fail dt (
     read_or_fail 3 dt (\<lambda>buf.
     value_or_fail (month_of buf) dt (\<lambda>v. let dt = dt\<lparr>month := v\<rparr> in
     skip_or_fail dt (
     read_or_fail 4 dt (\<lambda>buf.
     value_or_fail (four_digits buf) dt (\<lambda>v. let dt = dt\<lparr>year := v\<rparr> in
     skip_or_fail dt (
     read_or_fail 2 dt (\<lambda>buf.
     value_or_fail (two_digits buf) dt (\<lambda>v. let dt = dt\<lparr>hour := v\<rparr> in
     skip_or_fail dt (
     read_or_fail 2 dt (\<lambda>buf.
     value_or_fail (two_digits buf) dt (\<lambda>v. let dt = dt\<lparr>minute := v\<rparr> in
     skip_or_fail dt (
     read_or_fail 2 dt (\<lambda>buf.
     value_or_fail (two_digits buf) dt (\<lambda>v. let dt = dt\<lparr>second := v\<rparr> in
     skip_or_fail dt (
     read_or_fail 3 dt (\<lambda>buf s src.
       if buf ! 0 \<noteq> CHR ''G'' \<or> buf ! 1 \<noteq> CHR ''M'' \<or> buf ! 2 \<noteq> CHR ''T''
       then Inr (False, dt, s, src)
       else Inr (True, dt, s, src)))))))))))))))))))))))) s src)"

text \<open>
  The type \<^verbatim>\<open>double\<close> of \<^verbatim>\<open>readDouble\<close> is the binary64 format of IEEE 754: a finite
  double is the rational number it stands for, a multiple \<open>n * 2 ^ k\<close> with \<open>\<bar>n\<bar> < 2 ^ 53\<close>
  and \<open>- 1074 \<le> k \<le> 971\<close>, and there are the two infinities and the value that is not a
  number. The two zeros are not told apart: \<^verbatim>\<open>readDouble\<close> computes no negative number
  and divides by 10 only. \<open>DBL_MAX\<close> is the largest finite double.

  Every operation computes the exact result and rounds it to the nearest double, to the
  one with the even \<open>n\<close> when two are as near. \<open>binade x\<close> is the exponent \<open>e\<close> with
  \<open>2 ^ e \<le> x < 2 ^ (e + 1)\<close> of a positive \<open>x\<close>, \<open>quantum x\<close> the distance between the
  doubles around \<open>x\<close> (\<open>2 ^ (e - 52)\<close>, and \<open>2 ^ (- 1074)\<close> below the normal numbers), and
  \<open>round_double x\<close> the nearest multiple of the quantum, or an infinity when that multiple
  is larger than \<open>DBL_MAX\<close>.
\<close>

datatype double = Finite rat | PInf | MInf | NaN

definition DBL_MAX :: rat where
  "DBL_MAX = (2 ^ 53 - 1) * 2 ^ 971"

definition pow2 :: "int \<Rightarrow> rat" where
  "pow2 e = (if 0 \<le> e then 2 ^ nat e else 1 / 2 ^ nat (- e))"

fun bits :: "nat \<Rightarrow> nat" where
  "bits n = (if n = 0 then 0 else Suc (bits (n div 2)))"

declare bits.simps [simp del]

definition binade :: "rat \<Rightarrow> int" where
  "binade x =
     (if 1 \<le> x then int (bits (nat \<lfloor>x\<rfloor>)) - 1
      else let k = int (bits (nat \<lfloor>1 / x\<rfloor>)) - 1
           in if pow2 (- k) \<le> x then - k else - k - 1)"

definition quantum :: "rat \<Rightarrow> rat" where
  "quantum x = pow2 (max (binade \<bar>x\<bar>) (- 1022) - 52)"

definition round_even :: "rat \<Rightarrow> int" where
  "round_even m =
     (let n = \<lfloor>m\<rfloor>; r = m - of_int n
      in if r < 1 / 2 then n
         else if 1 / 2 < r then n + 1
         else if even n then n else n + 1)"

definition round_double :: "rat \<Rightarrow> double" where
  "round_double x =
     (if x = 0 then Finite 0
      else let y = of_int (round_even (x / quantum x)) * quantum x
           in if DBL_MAX < y then PInf
              else if y < - DBL_MAX then MInf
              else Finite y)"

text \<open>
  The operations of \<^verbatim>\<open>readDouble\<close> on doubles: \<^verbatim>\<open>+\<close>, \<^verbatim>\<open>*\<close>, \<^verbatim>\<open>/\<close> and the conversion
  of an \<^verbatim>\<open>int\<close>. The ESP8266 computes them in software, one rounding for each.
\<close>

fun dneg :: "double \<Rightarrow> double" where
  "dneg (Finite a) = Finite (- a)"
| "dneg PInf = MInf"
| "dneg MInf = PInf"
| "dneg NaN = NaN"

fun dadd :: "double \<Rightarrow> double \<Rightarrow> double" where
  "dadd (Finite a) (Finite b) = round_double (a + b)"
| "dadd NaN y = NaN"
| "dadd x NaN = NaN"
| "dadd PInf MInf = NaN"
| "dadd MInf PInf = NaN"
| "dadd PInf y = PInf"
| "dadd x PInf = PInf"
| "dadd MInf y = MInf"
| "dadd x MInf = MInf"

fun dmul :: "double \<Rightarrow> double \<Rightarrow> double" where
  "dmul (Finite a) (Finite b) = round_double (a * b)"
| "dmul NaN y = NaN"
| "dmul x NaN = NaN"
| "dmul (Finite a) y = (if a = 0 then NaN else if 0 < a then y else dneg y)"
| "dmul x (Finite b) = (if b = 0 then NaN else if 0 < b then x else dneg x)"
| "dmul PInf y = y"
| "dmul MInf y = dneg y"

fun ddiv :: "double \<Rightarrow> double \<Rightarrow> double" where
  "ddiv (Finite a) (Finite b) =
     (if b \<noteq> 0 then round_double (a / b)
      else if a = 0 then NaN else if 0 < a then PInf else MInf)"
| "ddiv NaN y = NaN"
| "ddiv x NaN = NaN"
| "ddiv (Finite a) y = Finite 0"
| "ddiv x (Finite b) = (if 0 \<le> b then x else dneg x)"
| "ddiv x y = NaN"

definition double_of_int :: "int \<Rightarrow> double" where
  "double_of_int i = round_double (of_int i)"

text \<open>
  \<^verbatim>\<open>readDouble\<close>. Each of the two \<^verbatim>\<open>while\<close> loops reads a byte, tests it and goes on
  while it is a digit; the loop is left with the byte that is no digit, which has been
  read. \<^verbatim>\<open>result *= 10.0; result += (char) ch - '0'\<close> is a product and a sum, each rounded;
  \<^verbatim>\<open>result += scale * ((char) ch - '0')\<close> is a product and a sum, each rounded, and
  \<^verbatim>\<open>scale\<close> begins as the double nearest \<open>1 / 10\<close>, which is what \<^verbatim>\<open>0.1\<close> denotes.
\<close>

lemma is_digit_char_of:
  "is_digit (char_of (ch :: int)) \<Longrightarrow>
     ch \<noteq> READ_ERROR \<and> ch \<noteq> READ_TIMEOUT \<and> ch \<noteq> READ_CLOSED"
  by (auto simp: is_digit_def READ_ERROR_def READ_TIMEOUT_def READ_CLOSED_def char_of_def)

function readDouble_int ::
  "double \<Rightarrow> bool \<Rightarrow> ESP8266HttpRead \<Rightarrow> char list \<Rightarrow>
     fault + (double \<times> bool \<times> int \<times> ESP8266HttpRead \<times> char list)" where
  "readDouble_int result sawInteger s src =
     (case read s src of
        Inl f \<Rightarrow> Inl f
      | Inr (ch, s', src') \<Rightarrow>
          if is_digit (char_of ch)
          then readDouble_int
                 (dadd (dmul result (Finite 10)) (double_of_int (digit_val (char_of ch))))
                 True s' src'
          else Inr (result, sawInteger, ch, s', src'))"
  by pat_completeness auto
termination
proof (relation "measures [\<lambda>(r, w, s, src). length src,
                          \<lambda>(r, w, s, src). nat (nextIn s - nextOut s)]", goal_cases)
  case 1
  show ?case by simp
next
  case (2 result sawInteger s src x ch y s' src')
  then have "read s src = Inr (ch, s', src')" and "is_digit (char_of ch)" by auto
  from read_progress [OF this(1)] is_digit_char_of [OF this(2)] show ?case by auto
qed

function readDouble_frac ::
  "double \<Rightarrow> double \<Rightarrow> bool \<Rightarrow> ESP8266HttpRead \<Rightarrow> char list \<Rightarrow>
     fault + (double \<times> bool \<times> int \<times> ESP8266HttpRead \<times> char list)" where
  "readDouble_frac result scale sawInteger s src =
     (case read s src of
        Inl f \<Rightarrow> Inl f
      | Inr (ch, s', src') \<Rightarrow>
          if is_digit (char_of ch)
          then readDouble_frac
                 (dadd result (dmul scale (double_of_int (digit_val (char_of ch)))))
                 (ddiv scale (Finite 10)) True s' src'
          else Inr (result, sawInteger, ch, s', src'))"
  by pat_completeness auto
termination
proof (relation "measures [\<lambda>(r, c, w, s, src). length src,
                          \<lambda>(r, c, w, s, src). nat (nextIn s - nextOut s)]", goal_cases)
  case 1
  show ?case by simp
next
  case (2 result scale sawInteger s src x ch y s' src')
  then have "read s src = Inr (ch, s', src')" and "is_digit (char_of ch)" by auto
  from read_progress [OF this(1)] is_digit_char_of [OF this(2)] show ?case by auto
qed

declare readDouble_int.simps [simp del] readDouble_frac.simps [simp del]

definition readDouble ::
  "ESP8266HttpRead \<Rightarrow> char list \<Rightarrow> fault + (double \<times> ESP8266HttpRead \<times> char list)" where
  "readDouble s src =
     (case readDouble_int (Finite 0) False s src of
        Inl f \<Rightarrow> Inl f
      | Inr (result, sawInteger, ch, s, src) \<Rightarrow>
          if ch < 0 then Inr (Finite DBL_MAX, s, src)
          else if ch \<noteq> of_char CHR ''.'' then
            (if \<not> sawInteger then Inr (Finite DBL_MAX, s, src) else Inr (result, s, src))
          else
            (case readDouble_frac result (round_double (1 / 10)) sawInteger s src of
               Inl f \<Rightarrow> Inl f
             | Inr (result, sawInteger, ch, s, src) \<Rightarrow>
                 if ch < 0 then Inr (Finite DBL_MAX, s, src)
                 else if \<not> sawInteger then Inr (Finite DBL_MAX, s, src)
                 else Inr (result, s, src)))"

section \<open>Reading until the stream ends\<close>

text \<open>
  The consumer of the filtered stream: it calls \<^verbatim>\<open>read\<close> until a call returns a
  negative value (closed, timeout or error) and keeps the bytes it was given, in order.
  The result is these bytes and how the reading ended: the fault, or the negative value
  with the state of the reader and what the client still holds.
\<close>

function read_all ::
  "ESP8266HttpRead \<Rightarrow> char list \<Rightarrow>
     int list \<times> (fault + (int \<times> ESP8266HttpRead \<times> char list))" where
  "read_all s src =
     (case read s src of
        Inl f \<Rightarrow> ([], Inl f)
      | Inr (ch, s', src') \<Rightarrow>
          if ch < 0 then ([], Inr (ch, s', src'))
          else (case read_all s' src' of (out, e) \<Rightarrow> (ch # out, e)))"
  by pat_completeness auto
termination
proof (relation "measures [\<lambda>(s, src). length src, \<lambda>(s, src). nat (nextIn s - nextOut s)]")
  show "wf (measures [\<lambda>(s, src). length src, \<lambda>(s, src). nat (nextIn s - nextOut s)])"
    by simp
next
  fix s :: ESP8266HttpRead and src :: "char list" and x xa y xb ya
  assume "read s src = Inr x" and "(xa, y) = x" and "(xb, ya) = y" and "\<not> xa < 0"
  then have "read s src = Inr (xa, xb, ya)" and "0 \<le> xa" by auto
  from read_progress_nonneg [OF this]
  show "((xb, ya), s, src)
        \<in> measures [\<lambda>(s, src). length src, \<lambda>(s, src). nat (nextIn s - nextOut s)]"
    by auto
qed

declare read_all.simps [simp del]

section \<open>The recogniser as an automaton on lists\<close>

text \<open>
  For the proofs, the recogniser is described a second time, as a transition table
  \<open>delta\<close> on the state and the byte, and a run \<open>deframe\<close> of that table over a list of
  bytes that keeps the bytes held back as a list. \<open>cmd_switch_delta\<close> shows that the table
  is the \<^verbatim>\<open>switch\<close> of the source, and \<open>read_all_deframe\<close> that a consumer calling
  \<^verbatim>\<open>read\<close> until the end is given exactly the bytes of the run. \<open>act\<close> is what each
  kind of transition does to the indices.
\<close>

datatype action = Advance CmdState | Flush | Skip | Close

definition delta :: "CmdState \<Rightarrow> char \<Rightarrow> action" where
  "delta st b =
     (case st of
        CMD_WAIT \<Rightarrow>
          (if b = CHR 0x0A then Advance CMD_NL
           else if b = CHR ''0'' then Advance CMD_0 else Flush)
      | CMD_NL \<Rightarrow> (if b = CHR ''+'' then Advance CMD_PLUS else Flush)
      | CMD_PLUS \<Rightarrow> (if b = CHR ''I'' then Advance CMD_I else Flush)
      | CMD_I \<Rightarrow> (if b = CHR ''P'' then Advance CMD_P else Flush)
      | CMD_P \<Rightarrow> (if b = CHR ''D'' then Advance CMD_D else Flush)
      | CMD_D \<Rightarrow> (if b = CHR '','' then Advance CMD_COMMA else Flush)
      | CMD_COMMA \<Rightarrow> (if b \<noteq> CHR '':'' then Advance CMD_COMMA else Skip)
      | CMD_0 \<Rightarrow> (if b = CHR '','' then Advance CMD_0_COMMA else Flush)
      | CMD_0_COMMA \<Rightarrow> (if b = CHR ''C'' then Advance CMD_0_C else Flush)
      | CMD_0_C \<Rightarrow> (if b = CHR ''L'' then Advance CMD_0_CL else Flush)
      | CMD_0_CL \<Rightarrow> (if b = CHR ''O'' then Advance CMD_0_CLO else Flush)
      | CMD_0_CLO \<Rightarrow> (if b = CHR ''S'' then Advance CMD_0_CLOS else Flush)
      | CMD_0_CLOS \<Rightarrow> (if b = CHR ''E'' then Advance CMD_0_CLOSE else Flush)
      | CMD_0_CLOSE \<Rightarrow> (if b = CHR ''D'' then Close else Flush))"

definition act :: "ESP8266HttpRead \<Rightarrow> action \<Rightarrow> ESP8266HttpRead option" where
  "act s a =
     (case a of
        Advance st \<Rightarrow> Some (s\<lparr>cmdState := st, nextIn := nextIn s + 1, nextOut := nextIn s + 1\<rparr>)
      | Flush \<Rightarrow> Some (s\<lparr>cmdState := CMD_WAIT, nextIn := nextIn s + 1, nextOut := 0\<rparr>)
      | Skip \<Rightarrow> Some (s\<lparr>cmdState := CMD_WAIT, nextIn := 0, nextOut := 0\<rparr>)
      | Close \<Rightarrow> None)"

lemma cmd_switch_delta:
  "cmdBuf s ! nat (nextIn s) = of_char b \<Longrightarrow> cmd_switch s = act s (delta (cmdState s) b)"
  by (cases "cmdState s") (simp_all add: cmd_switch_def advanceIf_def delta_def act_def)

fun deframe ::
  "CmdState \<Rightarrow> char list \<Rightarrow> char list \<Rightarrow>
     char list \<times> (fault + (int \<times> CmdState \<times> char list \<times> char list))" where
  "deframe st held [] = ([], Inr (READ_TIMEOUT, st, held, []))"
| "deframe st held (b # rest) =
     (if 20 \<le> length held then ([], Inl (StoreOutOfBounds (int (length held))))
      else case delta st b of
             Advance st' \<Rightarrow> deframe st' (held @ [b]) rest
           | Flush \<Rightarrow> (case deframe CMD_WAIT [] rest of (out, e) \<Rightarrow> (held @ b # out, e))
           | Skip \<Rightarrow> deframe CMD_WAIT [] rest
           | Close \<Rightarrow> ([], Inr (READ_CLOSED, st, held, rest)))"

text \<open>
  \<open>holds s st held\<close>: the reader \<open>s\<close> is bound, has nothing left to hand out, is in state
  \<open>st\<close>, and the bytes \<open>held\<close> of a command being recognised are the buffer below
  \<^verbatim>\<open>_nextIn\<close>. \<open>pending\<close> is that part of the buffer.
\<close>

definition holds :: "ESP8266HttpRead \<Rightarrow> CmdState \<Rightarrow> char list \<Rightarrow> bool" where
  "holds s st held \<longleftrightarrow>
     pEsp8266Client s \<and> length (cmdBuf s) = 20 \<and> cmdState s = st \<and> nextOut s = nextIn s \<and>
     (if st = CMD_WAIT then held = []
      else nextIn s = int (length held) \<and> take (length held) (cmdBuf s) = map of_char held)"

definition pending :: "ESP8266HttpRead \<Rightarrow> int list" where
  "pending s = take (nat (nextIn s)) (cmdBuf s)"

definition rel_end ::
  "(fault + (int \<times> ESP8266HttpRead \<times> char list)) \<Rightarrow>
   (fault + (int \<times> CmdState \<times> char list \<times> char list)) \<Rightarrow> bool" where
  "rel_end e e' \<longleftrightarrow>
     (case e' of
        Inl f \<Rightarrow> e = Inl f
      | Inr (r, st, held, src') \<Rightarrow>
          (\<exists>s'. e = Inr (r, s', src') \<and> holds s' st held \<and> pending s' = map of_char held))"

lemma of_char_nonneg: "\<not> (of_char c :: int) < 0"
  by (metis of_nat_of_char of_nat_0_le_iff not_less)

lemma read_all_cong: "read s src = read s' src' \<Longrightarrow> read_all s src = read_all s' src'"
  by (simp add: read_all.simps [of s src] read_all.simps [of s' src'])

lemma read_all_flush:
  "pEsp8266Client s \<Longrightarrow> length (cmdBuf s) = 20 \<Longrightarrow>
   nextOut s = int i \<Longrightarrow> nextIn s = int (i + length q) \<Longrightarrow> i + length q \<le> 20 \<Longrightarrow>
   (\<forall>j < length q. cmdBuf s ! (i + j) = of_char (q ! j)) \<Longrightarrow>
   read_all s src =
     (case read_all (s\<lparr>nextOut := nextIn s\<rparr>) src of (out, e) \<Rightarrow> (map of_char q @ out, e))"
proof (induction q arbitrary: s i)
  case Nil
  then have "s\<lparr>nextOut := nextIn s\<rparr> = s" by simp
  then show ?case by (simp split: prod.splits)
next
  case (Cons c q)
  let ?s' = "s\<lparr>nextOut := int (Suc i)\<rparr>"
  from Cons.prems have c: "cmdBuf s ! i = of_char c" by force
  from Cons.prems have "read s src = Inr (of_char c, ?s', src)"
    by (simp add: read_def read_loop_flush CMD_BUF_SIZE_def c)
  then have 1: "read_all s src = (case read_all ?s' src of (out, e) \<Rightarrow> (of_char c # out, e))"
    by (simp add: read_all.simps [of s src] of_char_nonneg)
  have "\<forall>j < length q. cmdBuf ?s' ! (Suc i + j) = of_char (q ! j)"
    using Cons.prems(6) by force
  with Cons.prems
  have "read_all ?s' src =
     (case read_all (?s'\<lparr>nextOut := nextIn ?s'\<rparr>) src of (out, e) \<Rightarrow> (map of_char q @ out, e))"
    by (intro Cons.IH [of ?s' "Suc i"]) simp_all
  with 1 show ?case by (simp split: prod.splits)
qed

lemma holds_reset:
  "holds s st held \<Longrightarrow>
     holds (cmd_reset s) st held \<and> nextIn (cmd_reset s) = int (length held) \<and>
     pending (cmd_reset s) = map of_char held"
  by (auto simp: holds_def cmd_reset_def pending_def)

lemma holds_facts:
  "holds s st held \<Longrightarrow> s1 = cmd_reset s \<Longrightarrow>
     pEsp8266Client s \<and> \<not> nextOut s < nextIn s \<and> cmdState s1 = st \<and>
     nextIn s1 = int (length held) \<and> length (cmdBuf s1) = 20 \<and> pEsp8266Client s1"
  by (auto simp: holds_def cmd_reset_def)

lemma read_Nil:
  "holds s st held \<Longrightarrow> read s [] = Inr (READ_TIMEOUT, cmd_reset s, [])"
  by (simp add: holds_def read_def read_loop_Nil cmd_reset_def)

lemma read_overflow:
  "holds s st held \<Longrightarrow> 20 \<le> length held \<Longrightarrow>
     read s (b # rest) = Inl (StoreOutOfBounds (int (length held)))"
  using holds_facts [of s st held "cmd_reset s"]
  by (simp add: read_def read_loop_Cons CMD_BUF_SIZE_def)

lemma read_Cons:
  assumes "holds s st held" and "length held < 20"
    and "s2 = (cmd_reset s)\<lparr>cmdBuf := (cmdBuf s)[length held := of_char b]\<rparr>"
  shows "read s (b # rest) =
     (case act s2 (delta st b) of
        None \<Rightarrow> Inr (READ_CLOSED, s2, rest)
      | Some s3 \<Rightarrow> read_loop s3 rest)"
proof -
  note f = holds_facts [OF assms(1) refl]
  have s2: "s2 = (cmd_reset s)\<lparr>cmdBuf := (cmdBuf (cmd_reset s))[nat (nextIn (cmd_reset s)) := of_char b]\<rparr>"
    using f assms(3) by (simp add: cmd_reset_def)
  have "cmdBuf s2 ! nat (nextIn s2) = of_char b"
    using f assms(2) by (simp add: s2)
  then have "cmd_switch s2 = act s2 (delta st b)"
    using cmd_switch_delta [of s2 b] f by (simp add: s2)
  moreover have "read s (b # rest) =
       (case cmd_switch s2 of
          None \<Rightarrow> Inr (READ_CLOSED, s2, rest)
        | Some s3 \<Rightarrow> read_loop s3 rest)"
    unfolding s2 using f assms(2)
    by (simp add: read_def read_loop_Cons CMD_BUF_SIZE_def Let_def cong: option.case_cong)
  ultimately show ?thesis by simp
qed

lemma delta_Advance_not_WAIT: "delta st b = Advance st' \<Longrightarrow> st' \<noteq> CMD_WAIT"
  by (cases st) (auto simp: delta_def split: if_splits)

lemma holds_stored:
  assumes "holds s st held" and "length held < 20"
    and "s2 = (cmd_reset s)\<lparr>cmdBuf := (cmdBuf s)[length held := of_char b]\<rparr>"
  shows "pEsp8266Client s2" and "length (cmdBuf s2) = 20" and "cmdState s2 = st"
    and "nextIn s2 = int (length held)" and "nextOut s2 = int (length held)"
    and "take (length held) (cmdBuf s2) = map of_char held"
    and "take (Suc (length held)) (cmdBuf s2) = map of_char (held @ [b])"
proof -
  from assms(1) have 1: "take (length held) (cmdBuf s) = map of_char held"
    by (auto simp: holds_def split: if_splits)
  from assms show "pEsp8266Client s2" "length (cmdBuf s2) = 20" "cmdState s2 = st"
    "nextIn s2 = int (length held)" "nextOut s2 = int (length held)"
    by (auto simp: holds_def cmd_reset_def split: if_splits)
  have c: "cmdBuf s2 = (cmdBuf s)[length held := of_char b]"
    using assms(3) by (simp add: cmd_reset_def)
  show 2: "take (length held) (cmdBuf s2) = map of_char held"
    using 1 by (simp add: c)
  have "length held < length (cmdBuf s2)"
    using assms by (simp add: c holds_def)
  then have "take (Suc (length held)) (cmdBuf s2) =
      take (length held) (cmdBuf s2) @ [cmdBuf s2 ! length held]"
    by (rule take_Suc_conv_app_nth)
  moreover have "cmdBuf s2 ! length held = of_char b"
    using assms by (simp add: c holds_def)
  ultimately show "take (Suc (length held)) (cmdBuf s2) = map of_char (held @ [b])"
    using 2 by simp
qed

lemma read_all_deframe:
  "holds s st held \<Longrightarrow>
     \<exists>e. read_all s src = (map of_char (fst (deframe st held src)), e) \<and>
         rel_end e (snd (deframe st held src))"
proof (induction src arbitrary: s st held)
  case Nil
  from read_Nil [OF Nil] holds_reset [OF Nil] show ?case
    by (simp add: read_all.simps [of s "[]"] rel_end_def READ_TIMEOUT_def)
next
  case (Cons b rest)
  show ?case
  proof (cases "20 \<le> length held")
    case True
    with read_overflow [OF Cons.prems True] show ?thesis
      by (simp add: read_all.simps [of s "b # rest"] rel_end_def)
  next
    case False
    then have lt: "length held < 20" by simp
    define s2 where "s2 = (cmd_reset s)\<lparr>cmdBuf := (cmdBuf s)[length held := of_char b]\<rparr>"
    note rd = read_Cons [OF Cons.prems lt s2_def, of rest]
    note st = holds_stored [OF Cons.prems lt s2_def]
    show ?thesis
    proof (cases "delta st b")
      case (Advance st')
      define s3 where "s3 = s2\<lparr>cmdState := st', nextIn := nextIn s2 + 1, nextOut := nextIn s2 + 1\<rparr>"
      have "read s (b # rest) = read s3 rest"
        using rd Advance st(1) by (simp add: act_def s3_def read_def)
      then have eq: "read_all s (b # rest) = read_all s3 rest"
        by (rule read_all_cong)
      have "holds s3 st' (held @ [b])"
        using st delta_Advance_not_WAIT [OF Advance] by (simp add: holds_def s3_def)
      from Cons.IH [OF this, of ] eq Advance False show ?thesis
        by simp
    next
      case Flush
      define s3 where "s3 = s2\<lparr>cmdState := CMD_WAIT, nextIn := nextIn s2 + 1, nextOut := 0\<rparr>"
      define s4 where "s4 = s3\<lparr>nextOut := nextIn s3\<rparr>"
      have "read s (b # rest) = read s3 rest"
        using rd Flush st(1) by (simp add: act_def s3_def read_def)
      then have eq: "read_all s (b # rest) = read_all s3 rest"
        by (rule read_all_cong)
      have nth: "\<forall>j < length (held @ [b]). cmdBuf s3 ! (0 + j) = of_char ((held @ [b]) ! j)"
      proof (intro allI impI)
        fix j assume j: "j < length (held @ [b])"
        then have "take (Suc (length held)) (cmdBuf s2) ! j = cmdBuf s2 ! j"
          by simp
        with st(7) j show "cmdBuf s3 ! (0 + j) = of_char ((held @ [b]) ! j)"
          by (simp add: s3_def del: map_append)
      qed
      have "read_all s3 rest =
          (case read_all s4 rest of (out, e) \<Rightarrow> (map of_char (held @ [b]) @ out, e))"
        unfolding s4_def
        by (rule read_all_flush [where i = 0]) (use st lt nth in \<open>simp_all add: s3_def\<close>)
      moreover have "holds s4 CMD_WAIT []"
        using st by (simp add: holds_def s4_def s3_def)
      note Cons.IH [OF this]
      ultimately show ?thesis using eq Flush False
        by (auto simp: split: prod.splits)
    next
      case Skip
      define s3 where "s3 = s2\<lparr>cmdState := CMD_WAIT, nextIn := 0, nextOut := 0\<rparr>"
      have "read s (b # rest) = read s3 rest"
        using rd Skip st(1) by (simp add: act_def s3_def read_def)
      then have eq: "read_all s (b # rest) = read_all s3 rest"
        by (rule read_all_cong)
      have "holds s3 CMD_WAIT []"
        using st by (simp add: holds_def s3_def)
      from Cons.IH [OF this] eq Skip False show ?thesis
        by simp
    next
      case Close
      have "read s (b # rest) = Inr (READ_CLOSED, s2, rest)"
        using rd Close by (simp add: act_def)
      moreover have "holds s2 st held" "pending s2 = map of_char held"
        using st Cons.prems by (auto simp: holds_def pending_def)
      ultimately show ?thesis using Close False
        by (simp add: read_all.simps [of s "b # rest"] rel_end_def READ_CLOSED_def)
    qed
  qed
qed

lemma deframe_append:
  "deframe st held xs = (out, Inr (READ_TIMEOUT, st', held', src')) \<Longrightarrow>
     src' = [] \<and>
     deframe st held (xs @ ys) =
       (case deframe st' held' ys of (out2, e) \<Rightarrow> (out @ out2, e))"
proof (induction xs arbitrary: st held out)
  case Nil
  then show ?case by (auto split: prod.splits)
next
  case (Cons b xs)
  show ?case
  proof (cases "delta st b")
    case (Advance st2)
    with Cons.prems Cons.IH [of st2 "held @ [b]" out] show ?thesis
      by (auto split: if_splits)
  next
    case Flush
    obtain o1 e1 where d: "deframe CMD_WAIT [] xs = (o1, e1)" by force
    with Cons.prems Flush have "e1 = Inr (READ_TIMEOUT, st', held', src')" "out = held @ b # o1"
      by (auto split: if_splits)
    with Cons.IH [of CMD_WAIT "[]" o1] d Flush Cons.prems show ?thesis
      by (auto split: if_splits prod.splits)
  next
    case Skip
    with Cons.prems Cons.IH [of CMD_WAIT "[]" out] show ?thesis
      by (auto split: if_splits)
  next
    case Close
    with Cons.prems show ?thesis
      by (auto simp: READ_TIMEOUT_def READ_CLOSED_def split: if_splits)
  qed
qed

section \<open>Control sequences in a stream\<close>

text \<open>
  The two messages of the ESP8266: \<^verbatim>\<open>\n+IPD,<n>:\<close>, whose head is \<open>IPD_HEAD\<close> and which ends
  at the first colon after it, and \<^verbatim>\<open>0,CLOSED\<close>. \<open>has_IPD\<close> and \<open>has_CLOSED\<close> say that a
  stream contains one, anywhere. \<open>long_IPD\<close> says that somewhere in the stream the head is
  followed by 14 bytes that are no colon and by at least one more byte. The three are
  written as recursive tests; \<open>has_IPD_iff\<close>, \<open>has_CLOSED_iff\<close> and \<open>long_IPD_iff\<close> say what
  they test.
\<close>

definition IPD_HEAD :: "char list" where
  "IPD_HEAD = CHR 0x0A # ''+IPD,''"

definition CLOSED_MSG :: "char list" where
  "CLOSED_MSG = ''0,CLOSED''"

fun has_IPD :: "char list \<Rightarrow> bool" where
  "has_IPD [] = False"
| "has_IPD (c # cs) =
     ((take 6 (c # cs) = IPD_HEAD \<and> CHR '':'' \<in> set (drop 6 (c # cs))) \<or> has_IPD cs)"

fun has_CLOSED :: "char list \<Rightarrow> bool" where
  "has_CLOSED [] = False"
| "has_CLOSED (c # cs) = (take 8 (c # cs) = CLOSED_MSG \<or> has_CLOSED cs)"

fun long_IPD :: "char list \<Rightarrow> bool" where
  "long_IPD [] = False"
| "long_IPD (c # cs) =
     ((take 6 (c # cs) = IPD_HEAD \<and> CHR '':'' \<notin> set (take 14 (drop 6 (c # cs)))
         \<and> 14 < length (drop 6 (c # cs)))
      \<or> long_IPD cs)"

lemma take_eq_iff: "length p = n \<Longrightarrow> take n xs = p \<longleftrightarrow> (\<exists>post. xs = p @ post)"
  by (metis append_eq_conv_conj append_take_drop_id)

lemma has_IPD_iff:
  "has_IPD xs \<longleftrightarrow> (\<exists>pre n post. xs = pre @ IPD_HEAD @ n @ CHR '':'' # post)"
proof
  show "has_IPD xs \<Longrightarrow> \<exists>pre n post. xs = pre @ IPD_HEAD @ n @ CHR '':'' # post"
  proof (induction xs)
    case Nil
    then show ?case by simp
  next
    case (Cons c cs)
    show ?case
    proof (cases "has_IPD cs")
      case True
      with Cons.IH obtain pre n post where "cs = pre @ IPD_HEAD @ n @ CHR '':'' # post" by blast
      then have "c # cs = (c # pre) @ IPD_HEAD @ n @ CHR '':'' # post" by simp
      then show ?thesis by blast
    next
      case False
      with Cons.prems have 1: "take 6 (c # cs) = IPD_HEAD"
        and 2: "CHR '':'' \<in> set (drop 6 (c # cs))" by auto
      from 2 obtain n post where 3: "drop 6 (c # cs) = n @ CHR '':'' # post"
        by (meson split_list)
      have "c # cs = [] @ IPD_HEAD @ n @ CHR '':'' # post"
        by (metis 1 3 append_Nil append_take_drop_id)
      then show ?thesis by blast
    qed
  qed
next
  assume "\<exists>pre n post. xs = pre @ IPD_HEAD @ n @ CHR '':'' # post"
  then obtain pre n post where "xs = pre @ IPD_HEAD @ n @ CHR '':'' # post" by blast
  then show "has_IPD xs"
  proof (induction pre arbitrary: xs)
    case Nil
    then show ?case by (simp add: IPD_HEAD_def)
  next
    case (Cons a pre)
    then show ?case by simp
  qed
qed

lemma has_CLOSED_iff:
  "has_CLOSED xs \<longleftrightarrow> (\<exists>pre post. xs = pre @ CLOSED_MSG @ post)"
proof
  show "has_CLOSED xs \<Longrightarrow> \<exists>pre post. xs = pre @ CLOSED_MSG @ post"
  proof (induction xs)
    case Nil
    then show ?case by simp
  next
    case (Cons c cs)
    show ?case
    proof (cases "has_CLOSED cs")
      case True
      with Cons.IH obtain pre post where "cs = pre @ CLOSED_MSG @ post" by blast
      then have "c # cs = (c # pre) @ CLOSED_MSG @ post" by simp
      then show ?thesis by blast
    next
      case False
      with Cons.prems have 1: "take 8 (c # cs) = CLOSED_MSG" by auto
      have "c # cs = [] @ CLOSED_MSG @ drop 8 (c # cs)"
        by (metis 1 append_Nil append_take_drop_id)
      then show ?thesis by blast
    qed
  qed
next
  assume "\<exists>pre post. xs = pre @ CLOSED_MSG @ post"
  then obtain pre post where "xs = pre @ CLOSED_MSG @ post" by blast
  then show "has_CLOSED xs"
  proof (induction pre arbitrary: xs)
    case Nil
    then show ?case by (simp add: CLOSED_MSG_def)
  next
    case (Cons a pre)
    then show ?case by simp
  qed
qed

lemma long_IPD_iff:
  "long_IPD xs \<longleftrightarrow>
     (\<exists>pre n post. xs = pre @ IPD_HEAD @ n @ post \<and> length n = 14 \<and> CHR '':'' \<notin> set n
        \<and> post \<noteq> [])"
proof
  show "long_IPD xs \<Longrightarrow>
    \<exists>pre n post. xs = pre @ IPD_HEAD @ n @ post \<and> length n = 14 \<and> CHR '':'' \<notin> set n \<and> post \<noteq> []"
  proof (induction xs)
    case Nil
    then show ?case by simp
  next
    case (Cons c cs)
    show ?case
    proof (cases "long_IPD cs")
      case True
      with Cons.IH obtain pre n post where "cs = pre @ IPD_HEAD @ n @ post"
        "length n = 14" "CHR '':'' \<notin> set n" "post \<noteq> []" by blast
      then have "c # cs = (c # pre) @ IPD_HEAD @ n @ post" by simp
      with \<open>length n = 14\<close> \<open>CHR '':'' \<notin> set n\<close> \<open>post \<noteq> []\<close> show ?thesis by blast
    next
      case False
      define r where "r = drop 6 (c # cs)"
      from False Cons.prems have 1: "take 6 (c # cs) = IPD_HEAD"
        and 2: "CHR '':'' \<notin> set (take 14 r)" and 3: "14 < length r"
        by (auto simp: r_def)
      have "c # cs = [] @ IPD_HEAD @ take 14 r @ drop 14 r"
        unfolding r_def by (metis 1 append_Nil append_take_drop_id)
      moreover have "length (take 14 r) = 14" "drop 14 r \<noteq> []" using 3 by auto
      ultimately show ?thesis using 2 by blast
    qed
  qed
next
  assume "\<exists>pre n post. xs = pre @ IPD_HEAD @ n @ post \<and> length n = 14 \<and> CHR '':'' \<notin> set n
      \<and> post \<noteq> []"
  then obtain pre n post where "xs = pre @ IPD_HEAD @ n @ post" "length n = 14"
    "CHR '':'' \<notin> set n" "post \<noteq> []" by blast
  then show "long_IPD xs"
  proof (induction pre arbitrary: xs)
    case Nil
    then show ?case by (cases post) (simp_all add: IPD_HEAD_def)
  next
    case (Cons a pre)
    then show ?case by simp
  qed
qed

lemma has_IPD_suffix: "has_IPD ys \<Longrightarrow> has_IPD (xs @ ys)"
  unfolding has_IPD_iff by (metis append.assoc)

lemma has_CLOSED_suffix: "has_CLOSED ys \<Longrightarrow> has_CLOSED (xs @ ys)"
  unfolding has_CLOSED_iff by (metis append.assoc)

lemma long_IPD_suffix: "long_IPD ys \<Longrightarrow> long_IPD (xs @ ys)"
  unfolding long_IPD_iff by (metis append.assoc)

subsection \<open>What is held in each state\<close>

text \<open>
  \<open>lit st\<close> is the beginning of a message that has been read when the recogniser is in
  state \<open>st\<close>. In every state but \<open>CMD_COMMA\<close> the bytes held are \<open>lit st\<close>; in \<open>CMD_COMMA\<close>
  they are the head and the bytes absorbed since, none of them a colon.
\<close>

fun lit :: "CmdState \<Rightarrow> char list" where
  "lit CMD_WAIT = []"
| "lit CMD_NL = [CHR 0x0A]"
| "lit CMD_PLUS = CHR 0x0A # ''+''"
| "lit CMD_I = CHR 0x0A # ''+I''"
| "lit CMD_P = CHR 0x0A # ''+IP''"
| "lit CMD_D = CHR 0x0A # ''+IPD''"
| "lit CMD_COMMA = CHR 0x0A # ''+IPD,''"
| "lit CMD_0 = ''0''"
| "lit CMD_0_COMMA = ''0,''"
| "lit CMD_0_C = ''0,C''"
| "lit CMD_0_CL = ''0,CL''"
| "lit CMD_0_CLO = ''0,CLO''"
| "lit CMD_0_CLOS = ''0,CLOS''"
| "lit CMD_0_CLOSE = ''0,CLOSE''"

definition tracks :: "CmdState \<Rightarrow> char list \<Rightarrow> bool" where
  "tracks st held \<longleftrightarrow>
     (if st = CMD_COMMA then \<exists>n. held = IPD_HEAD @ n \<and> CHR '':'' \<notin> set n
      else held = lit st)"

lemma tracks_WAIT [simp]: "tracks CMD_WAIT []"
  by (simp add: tracks_def)

lemma tracks_Advance:
  "tracks st held \<Longrightarrow> delta st b = Advance st' \<Longrightarrow> tracks st' (held @ [b])"
  by (cases st) (auto simp: tracks_def delta_def IPD_HEAD_def split: if_splits)

lemma tracks_nonempty: "tracks st held \<Longrightarrow> st \<noteq> CMD_WAIT \<Longrightarrow> held \<noteq> []"
  by (cases st) (auto simp: tracks_def IPD_HEAD_def)

lemma tracks_length: "tracks st held \<Longrightarrow> st \<noteq> CMD_COMMA \<Longrightarrow> length held < 20"
  by (cases st) (auto simp: tracks_def)

lemma tracks_Skip:
  "tracks st held \<Longrightarrow> delta st b = Skip \<Longrightarrow> has_IPD (held @ b # rest)"
proof -
  assume "tracks st held" "delta st b = Skip"
  then obtain n where "held @ b # rest = [] @ IPD_HEAD @ n @ CHR '':'' # rest"
    by (cases st) (auto simp: tracks_def delta_def split: if_splits)
  then show ?thesis unfolding has_IPD_iff by blast
qed

lemma tracks_Close:
  "tracks st held \<Longrightarrow> delta st b = Close \<Longrightarrow> has_CLOSED (held @ b # rest)"
proof -
  assume "tracks st held" "delta st b = Close"
  then have "held @ b # rest = [] @ CLOSED_MSG @ rest"
    by (cases st) (auto simp: tracks_def delta_def CLOSED_MSG_def split: if_splits)
  then show ?thesis unfolding has_CLOSED_iff by blast
qed

lemma tracks_COMMA_length:
  assumes "tracks CMD_COMMA held" and "\<not> long_IPD (held @ b # rest)"
  shows "length held < 20"
proof (rule ccontr)
  assume "\<not> length held < 20"
  from assms(1) obtain n where n: "held = IPD_HEAD @ n" "CHR '':'' \<notin> set n"
    by (auto simp: tracks_def)
  with \<open>\<not> length held < 20\<close> have len: "14 \<le> length n" by (simp add: IPD_HEAD_def)
  have "held @ b # rest = [] @ IPD_HEAD @ take 14 n @ (drop 14 n @ b # rest)"
    using n by simp
  moreover have "length (take 14 n) = 14" using len by simp
  moreover have "CHR '':'' \<notin> set (take 14 n)" using n(2) by (meson in_set_takeD)
  ultimately have "long_IPD (held @ b # rest)"
    unfolding long_IPD_iff by blast
  with assms(2) show False by simp
qed

lemma deframe_no_fault:
  "tracks st held \<Longrightarrow> \<not> long_IPD (held @ xs) \<Longrightarrow>
     \<exists>out r st' held' src'. deframe st held xs = (out, Inr (r, st', held', src'))"
proof (induction xs arbitrary: st held)
  case Nil
  then show ?case by simp
next
  case (Cons b xs)
  have lt: "length held < 20"
    using tracks_length [of st held] tracks_COMMA_length [of held b xs] Cons.prems
    by (cases "st = CMD_COMMA") auto
  have suffix: "\<not> long_IPD xs"
    using Cons.prems(2) long_IPD_suffix [of xs "held @ [b]"] by auto
  show ?case
  proof (cases "delta st b")
    case (Advance st2)
    from Cons.IH [OF tracks_Advance [OF Cons.prems(1) Advance]] Cons.prems(2)
    show ?thesis using Advance lt by simp
  next
    case Flush
    from Cons.IH [OF tracks_WAIT] suffix
    obtain out r st' held' src' where "deframe CMD_WAIT [] xs = (out, Inr (r, st', held', src'))"
      by auto
    then show ?thesis using Flush lt by simp
  next
    case Skip
    from Cons.IH [OF tracks_WAIT] suffix show ?thesis using Skip lt by simp
  next
    case Close
    then show ?thesis using lt by simp
  qed
qed

lemma deframe_clean:
  "tracks st held \<Longrightarrow> \<not> has_IPD (held @ xs) \<Longrightarrow> \<not> has_CLOSED (held @ xs) \<Longrightarrow>
   \<not> long_IPD (held @ xs) \<Longrightarrow>
     \<exists>out st' held'. deframe st held xs = (out, Inr (READ_TIMEOUT, st', held', []))
        \<and> out @ held' = held @ xs \<and> tracks st' held'"
proof (induction xs arbitrary: st held)
  case Nil
  then show ?case by simp
next
  case (Cons b xs)
  have lt: "length held < 20"
    using tracks_length [of st held] tracks_COMMA_length [of held b xs] Cons.prems
    by (cases "st = CMD_COMMA") auto
  have suffix: "\<not> has_IPD xs" "\<not> has_CLOSED xs" "\<not> long_IPD xs"
    using Cons.prems has_IPD_suffix [of xs "held @ [b]"] has_CLOSED_suffix [of xs "held @ [b]"]
      long_IPD_suffix [of xs "held @ [b]"] by auto
  show ?case
  proof (cases "delta st b")
    case (Advance st2)
    from Cons.IH [OF tracks_Advance [OF Cons.prems(1) Advance]] Cons.prems
    show ?thesis using Advance lt by simp
  next
    case Flush
    from Cons.IH [OF tracks_WAIT] suffix
    obtain out st' held' where "deframe CMD_WAIT [] xs = (out, Inr (READ_TIMEOUT, st', held', []))"
      "out @ held' = xs" "tracks st' held'" by auto
    then show ?thesis using Flush lt by simp
  next
    case Skip
    with tracks_Skip [OF Cons.prems(1) Skip, of xs] Cons.prems show ?thesis by simp
  next
    case Close
    with tracks_Close [OF Cons.prems(1) Close, of xs] Cons.prems show ?thesis by simp
  qed
qed

section \<open>Streams read from begin\<close>

text \<open>
  \<open>reader0\<close> is the object of a declaration \<^verbatim>\<open>ESP8266HttpRead reader;\<close> at file scope:
  zero-initialised, then the initialisers of \<^verbatim>\<open>_nextIn\<close> and \<^verbatim>\<open>_nextOut\<close>. The theorems
  are about any object whose buffer has its 20 entries, whatever they contain.
\<close>

definition reader0 :: ESP8266HttpRead where
  "reader0 = \<lparr>pEsp8266Client = False, timeoutMs = 0, cmdState = CMD_WAIT,
               cmdBuf = replicate 20 0, nextIn = 0, nextOut = 0\<rparr>"

lemma reader0_length: "length (cmdBuf reader0) = 20"
  by (simp add: reader0_def)

lemma holds_begin: "length (cmdBuf s) = 20 \<Longrightarrow> holds (begin_read s t) CMD_WAIT []"
  by (simp add: holds_def begin_read_def)

lemma read_all_begin:
  assumes "length (cmdBuf s) = 20"
  shows "fst (read_all (begin_read s t) xs) = map of_char (fst (deframe CMD_WAIT [] xs))"
    and "rel_end (snd (read_all (begin_read s t) xs)) (snd (deframe CMD_WAIT [] xs))"
  using read_all_deframe [OF holds_begin [OF assms], of t xs] by auto

lemma rel_end_Inr:
  "rel_end e (Inr (r, st, held, src')) \<Longrightarrow>
     \<exists>s'. e = Inr (r, s', src') \<and> holds s' st held \<and> pending s' = map of_char held"
  by (simp add: rel_end_def)

lemma rel_end_Inl: "rel_end e (Inl f) \<Longrightarrow> e = Inl f"
  by (simp add: rel_end_def)

lemma holds_WAIT: "holds s' st held \<Longrightarrow> cmdState s' = CMD_WAIT \<Longrightarrow> held = []"
  by (auto simp: holds_def)

subsection \<open>What a consumer observes\<close>

text \<open>
  Two runs over the same stream can leave different bytes in the part of the buffer that is
  not in use. \<open>outcome\<close> is what can be observed of the end of a run: the fault, or the
  value of the last \<^verbatim>\<open>read\<close>, the state of the recogniser, the bytes it holds and what
  the client still has. \<open>observe\<close> pairs the bytes given to the consumer with this
  outcome, and \<open>observe_deframe\<close> computes both from the automaton.
\<close>

definition outcome ::
  "fault + (int \<times> ESP8266HttpRead \<times> char list) \<Rightarrow>
     fault + (int \<times> CmdState \<times> int list \<times> char list)" where
  "outcome e =
     (case e of
        Inl f \<Rightarrow> Inl f
      | Inr (r, s', src') \<Rightarrow> Inr (r, cmdState s', pending s', src'))"

definition observe ::
  "int list \<times> (fault + (int \<times> ESP8266HttpRead \<times> char list)) \<Rightarrow>
     int list \<times> (fault + (int \<times> CmdState \<times> int list \<times> char list))" where
  "observe x = (fst x, outcome (snd x))"

definition deframe_obs ::
  "char list \<times> (fault + (int \<times> CmdState \<times> char list \<times> char list)) \<Rightarrow>
     int list \<times> (fault + (int \<times> CmdState \<times> int list \<times> char list))" where
  "deframe_obs x =
     (map of_char (fst x),
      case snd x of
        Inl f \<Rightarrow> Inl f
      | Inr (r, st, held, src') \<Rightarrow> Inr (r, st, map of_char held, src'))"

lemma observe_deframe:
  assumes "holds s st held"
  shows "observe (read_all s xs) = deframe_obs (deframe st held xs)"
proof -
  from read_all_deframe [OF assms, of xs]
  obtain e where 1: "read_all s xs = (map of_char (fst (deframe st held xs)), e)"
    and 2: "rel_end e (snd (deframe st held xs))" by blast
  show ?thesis
  proof (cases "snd (deframe st held xs)")
    case (Inl f)
    with 2 have "e = Inl f" by (simp add: rel_end_def)
    with 1 Inl show ?thesis by (simp add: observe_def outcome_def deframe_obs_def)
  next
    case (Inr y)
    obtain r st' held' src' where y: "y = (r, st', held', src')" by (cases y) auto
    with 2 Inr obtain s' where "e = Inr (r, s', src')" "holds s' st' held'"
      "pending s' = map of_char held'" by (auto simp: rel_end_def)
    with 1 Inr y show ?thesis
      by (simp add: observe_def outcome_def deframe_obs_def holds_def)
  qed
qed

lemma observe_begin:
  "length (cmdBuf s) = 20 \<Longrightarrow>
     observe (read_all (begin_read s t) xs) = deframe_obs (deframe CMD_WAIT [] xs)"
  by (rule observe_deframe [OF holds_begin])

text \<open>
  \<open>idle_after s pre\<close>: when the stream \<open>pre\<close> has been read to its end, the recogniser is
  in \<^verbatim>\<open>CMD_WAIT\<close>: no message is being recognised and no byte is held. Then a stream
  \<open>pre @ xs\<close> is read as \<open>pre\<close> followed by \<open>xs\<close> read from the idle state.
\<close>

definition idle_after :: "ESP8266HttpRead \<Rightarrow> char list \<Rightarrow> bool" where
  "idle_after s pre \<longleftrightarrow>
     (case outcome (snd (read_all s pre)) of
        Inl f \<Rightarrow> False
      | Inr (r, st, held, src') \<Rightarrow> st = CMD_WAIT)"

lemma deframe_result:
  "deframe st held xs = (out, Inr (r, st', held', src')) \<Longrightarrow>
     (r = READ_TIMEOUT \<and> src' = []) \<or> (r = READ_CLOSED \<and> st' = CMD_0_CLOSE)"
proof (induction xs arbitrary: st held out)
  case Nil
  then show ?case by simp
next
  case (Cons b xs)
  show ?case
  proof (cases "delta st b")
    case (Advance st2)
    with Cons.prems Cons.IH [of st2 "held @ [b]" out] show ?thesis
      by (auto split: if_splits)
  next
    case Flush
    obtain o1 e1 where d: "deframe CMD_WAIT [] xs = (o1, e1)" by force
    with Cons.prems Flush have "e1 = Inr (r, st', held', src')"
      by (auto split: if_splits)
    with Cons.IH [of CMD_WAIT "[]" o1] d show ?thesis by simp
  next
    case Skip
    with Cons.prems Cons.IH [of CMD_WAIT "[]" out] show ?thesis
      by (auto split: if_splits)
  next
    case Close
    with Cons.prems show ?thesis
      by (cases st) (auto simp: delta_def split: if_splits)
  qed
qed

lemma idle_after_deframe:
  assumes "length (cmdBuf s) = 20" and "idle_after (begin_read s t) pre"
  shows "deframe CMD_WAIT [] pre = (fst (deframe CMD_WAIT [] pre), Inr (READ_TIMEOUT, CMD_WAIT, [], []))"
proof -
  obtain out e where d: "deframe CMD_WAIT [] pre = (out, e)" by force
  from assms(2) observe_begin [OF assms(1), of t pre] d
  obtain r held src' where e: "e = Inr (r, CMD_WAIT, held, src')"
    by (auto simp: idle_after_def observe_def deframe_obs_def split: sum.splits)
  from read_all_deframe [OF holds_begin [OF assms(1)], of t pre] d e
  obtain s' where "holds s' CMD_WAIT held" by (auto simp: rel_end_def)
  then have "held = []" by (simp add: holds_def)
  moreover from deframe_result [of CMD_WAIT "[]" pre out r CMD_WAIT held src'] d e
  have "r = READ_TIMEOUT \<and> src' = []" by simp
  ultimately show ?thesis using d e by simp
qed

lemma observe_append:
  assumes "length (cmdBuf s) = 20" and "idle_after (begin_read s t) pre"
  shows "deframe CMD_WAIT [] (pre @ xs) =
     (case deframe CMD_WAIT [] xs of (out2, e) \<Rightarrow> (fst (deframe CMD_WAIT [] pre) @ out2, e))"
  using deframe_append [OF idle_after_deframe [OF assms], of xs] by simp

text \<open>
  Bytes that are neither \<^verbatim>\<open>\n\<close> nor \<^verbatim>\<open>0\<close> begin no message: a stream of such bytes is
  given to the consumer as it is and leaves the recogniser idle.
\<close>

lemma deframe_plain:
  "\<forall>c \<in> set xs. c \<noteq> CHR 0x0A \<and> c \<noteq> CHR ''0'' \<Longrightarrow>
     deframe CMD_WAIT [] xs = (xs, Inr (READ_TIMEOUT, CMD_WAIT, [], []))"
  by (induction xs) (simp_all add: delta_def)

lemma idle_after_plain:
  assumes "length (cmdBuf s) = 20" and "\<forall>c \<in> set pre. c \<noteq> CHR 0x0A \<and> c \<noteq> CHR ''0''"
  shows "idle_after (begin_read s t) pre"
  using observe_begin [OF assms(1), of t pre] deframe_plain [OF assms(2)]
  by (simp add: idle_after_def observe_def deframe_obs_def)

subsection \<open>Whole messages and failed matches, from the idle state\<close>

lemma deframe_COMMA_absorb:
  "CHR '':'' \<notin> set n \<Longrightarrow> length held + length n \<le> 20 \<Longrightarrow>
     deframe CMD_COMMA held (n @ rest) = deframe CMD_COMMA (held @ n) rest"
proof (induction n arbitrary: held)
  case Nil
  then show ?case by simp
next
  case (Cons b n)
  from Cons.prems have "delta CMD_COMMA b = Advance CMD_COMMA"
    by (auto simp: delta_def)
  with Cons.prems Cons.IH [of "held @ [b]"] show ?case by simp
qed

lemma length_IPD_HEAD: "length IPD_HEAD = 6"
  by (simp add: IPD_HEAD_def)

lemma deframe_IPD_HEAD:
  "deframe CMD_WAIT [] (IPD_HEAD @ rest) = deframe CMD_COMMA IPD_HEAD rest"
  by (simp add: IPD_HEAD_def delta_def)

lemma deframe_IPD:
  assumes "CHR '':'' \<notin> set n" and "length n \<le> 13"
  shows "deframe CMD_WAIT [] (IPD_HEAD @ n @ CHR '':'' # rest) = deframe CMD_WAIT [] rest"
proof -
  have "deframe CMD_WAIT [] (IPD_HEAD @ n @ CHR '':'' # rest) =
      deframe CMD_COMMA (IPD_HEAD @ n) (CHR '':'' # rest)"
    using assms by (simp add: deframe_IPD_HEAD deframe_COMMA_absorb length_IPD_HEAD)
  also have "\<dots> = deframe CMD_WAIT [] rest"
    using assms by (simp add: delta_def length_IPD_HEAD)
  finally show ?thesis .
qed

lemma deframe_IPD_long:
  assumes "CHR '':'' \<notin> set n" and "length n = 14"
  shows "deframe CMD_WAIT [] (IPD_HEAD @ n @ b # rest) = ([], Inl (StoreOutOfBounds 20))"
proof -
  have "deframe CMD_WAIT [] (IPD_HEAD @ n @ b # rest) =
      deframe CMD_COMMA (IPD_HEAD @ n) (b # rest)"
    using assms by (simp add: deframe_IPD_HEAD deframe_COMMA_absorb length_IPD_HEAD)
  also have "\<dots> = ([], Inl (StoreOutOfBounds 20))"
    using assms by (simp add: length_IPD_HEAD)
  finally show ?thesis .
qed

lemma deframe_CLOSED:
  "deframe CMD_WAIT [] (CLOSED_MSG @ rest) =
     ([], Inr (READ_CLOSED, CMD_0_CLOSE, ''0,CLOSE'', rest))"
  by (simp add: CLOSED_MSG_def delta_def)

text \<open>
  \<open>failed_match p c\<close>: \<open>p\<close> is the beginning of one of the two messages, not empty, shorter
  than the head \<^verbatim>\<open>\n+IPD,\<close> or than \<^verbatim>\<open>0,CLOSED\<close>, and \<open>c\<close> is not the byte that
  continues it.
\<close>

definition failed_match :: "char list \<Rightarrow> char \<Rightarrow> bool" where
  "failed_match p c \<longleftrightarrow>
     p \<noteq> [] \<and>
     ((strict_prefix p IPD_HEAD \<and> \<not> prefix (p @ [c]) IPD_HEAD) \<or>
      (strict_prefix p CLOSED_MSG \<and> \<not> prefix (p @ [c]) CLOSED_MSG))"

lemma failed_match_lit:
  assumes "failed_match p c"
  shows "\<exists>st. p = lit st \<and> st \<noteq> CMD_WAIT \<and> st \<noteq> CMD_COMMA \<and> delta st c = Flush"
proof -
  from assms have "p \<noteq> []" by (simp add: failed_match_def)
  from assms consider
      (ipd) "p \<in> set (prefixes IPD_HEAD)" "p \<noteq> IPD_HEAD" "\<not> prefix (p @ [c]) IPD_HEAD"
    | (closed) "p \<in> set (prefixes CLOSED_MSG)" "p \<noteq> CLOSED_MSG" "\<not> prefix (p @ [c]) CLOSED_MSG"
    by (auto simp: failed_match_def strict_prefix_def)
  then show ?thesis
  proof cases
    case ipd
    from ipd(1) \<open>p \<noteq> []\<close> ipd(2) consider "p = lit CMD_NL" | "p = lit CMD_PLUS" | "p = lit CMD_I"
      | "p = lit CMD_P" | "p = lit CMD_D"
      by (auto simp: IPD_HEAD_def)
    then show ?thesis
    proof cases
      case 1 with ipd(3) show ?thesis by (intro exI [of _ CMD_NL]) (simp add: IPD_HEAD_def delta_def)
    next
      case 2 with ipd(3) show ?thesis by (intro exI [of _ CMD_PLUS]) (simp add: IPD_HEAD_def delta_def)
    next
      case 3 with ipd(3) show ?thesis by (intro exI [of _ CMD_I]) (simp add: IPD_HEAD_def delta_def)
    next
      case 4 with ipd(3) show ?thesis by (intro exI [of _ CMD_P]) (simp add: IPD_HEAD_def delta_def)
    next
      case 5 with ipd(3) show ?thesis by (intro exI [of _ CMD_D]) (simp add: IPD_HEAD_def delta_def)
    qed
  next
    case closed
    from closed(1) \<open>p \<noteq> []\<close> closed(2) consider "p = lit CMD_0" | "p = lit CMD_0_COMMA"
      | "p = lit CMD_0_C" | "p = lit CMD_0_CL" | "p = lit CMD_0_CLO" | "p = lit CMD_0_CLOS"
      | "p = lit CMD_0_CLOSE"
      by (auto simp: CLOSED_MSG_def)
    then show ?thesis
    proof cases
      case 1 with closed(3) show ?thesis by (intro exI [of _ CMD_0]) (simp add: CLOSED_MSG_def delta_def)
    next
      case 2 with closed(3) show ?thesis by (intro exI [of _ CMD_0_COMMA]) (simp add: CLOSED_MSG_def delta_def)
    next
      case 3 with closed(3) show ?thesis by (intro exI [of _ CMD_0_C]) (simp add: CLOSED_MSG_def delta_def)
    next
      case 4 with closed(3) show ?thesis by (intro exI [of _ CMD_0_CL]) (simp add: CLOSED_MSG_def delta_def)
    next
      case 5 with closed(3) show ?thesis by (intro exI [of _ CMD_0_CLO]) (simp add: CLOSED_MSG_def delta_def)
    next
      case 6 with closed(3) show ?thesis by (intro exI [of _ CMD_0_CLOS]) (simp add: CLOSED_MSG_def delta_def)
    next
      case 7 with closed(3) show ?thesis by (intro exI [of _ CMD_0_CLOSE]) (simp add: CLOSED_MSG_def delta_def)
    qed
  qed
qed

lemma deframe_lit_flush:
  "st \<noteq> CMD_WAIT \<Longrightarrow> st \<noteq> CMD_COMMA \<Longrightarrow> delta st c = Flush \<Longrightarrow>
     deframe CMD_WAIT [] (lit st @ c # rest) =
       (case deframe CMD_WAIT [] rest of (out, e) \<Rightarrow> (lit st @ c # out, e))"
  by (cases st) (auto simp: delta_def split: if_splits prod.splits)

subsection \<open>Evaluation on given streams\<close>

text \<open>
  The rules that evaluate a run on a given stream: through the automaton for a stream read
  to its end, and by unfolding \<^verbatim>\<open>read\<close> for the operations that call it byte by byte.
  A byte stays the term \<open>of_char c\<close> in the buffer.
\<close>

lemmas stream_eval = observe_begin [OF reader0_length] read_all_begin(1) [OF reader0_length]
  deframe.simps delta_def deframe_obs_def IPD_HEAD_def CLOSED_MSG_def

lemma idle_after_observe:
  "idle_after s pre \<longleftrightarrow>
     (case snd (observe (read_all s pre)) of
        Inl f \<Rightarrow> False
      | Inr (r, st, held, src') \<Rightarrow> st = CMD_WAIT)"
  by (simp add: idle_after_def observe_def)


lemmas read_eval = read_def read_loop_flush read_loop_Nil read_loop_Cons cmd_reset_def
  cmd_switch_def advanceIf_def CMD_BUF_SIZE_def Let_def of_char_nonneg
  of_char_Char [where 'a = nat]

lemmas findDate_eval = findDate_def find_or_fail_def read_or_fail_def skip_or_fail_def
  value_or_fail_def day_of_week_def month_of_def two_digits_def four_digits_def is_digit_def
  digit_val_def find_pattern_def find_loop.simps begin_read_def read_eval READ_TIMEOUT_def
  eval_nat_numeral

lemma bits_numeral:
  "bits 0 = 0" "bits (Suc 0) = 1" "bits 1 = 1"
  "bits (numeral k) = Suc (bits (numeral k div 2))"
  by (simp_all add: bits.simps)

lemma floor_rat_numeral:
  "\<lfloor>numeral a / numeral b :: rat\<rfloor> = numeral a div numeral b"
  "\<lfloor>- (numeral a / numeral b) :: rat\<rfloor> = - numeral a div numeral b"
  using floor_divide_of_int_eq [of "numeral a" "numeral b", where 'a = rat]
    floor_divide_of_int_eq [of "- numeral a" "numeral b", where 'a = rat]
  by simp_all

lemmas double_eval = round_double_def quantum_def binade_def pow2_def round_even_def
  bits_numeral floor_rat_numeral Let_def DBL_MAX_def double_of_int_def

lemmas readDouble_eval = readDouble_def readDouble_int.simps readDouble_frac.simps
  is_digit_def digit_val_def begin_read_def read_eval READ_TIMEOUT_def double_eval

section \<open>The stream filter\<close>

subsection \<open>Streams without control sequences\<close>

text \<open>
  C1, as the code has it. A stream that contains neither of the two messages, and in
  which no head \<^verbatim>\<open>\n+IPD,\<close> is followed by more than 14 bytes (so many make the buffer
  overflow), is read to its end without a fault, and the bytes given to the consumer
  followed by the bytes still held in the buffer are the stream, byte for byte and in
  order. So the consumer is given the whole stream when the recogniser is idle at the end;
  when the stream ends inside the beginning of a message (after \<^verbatim>\<open>\n\<close> or \<^verbatim>\<open>0\<close>, say)
  these last bytes are held back and \<^verbatim>\<open>read\<close> returns \<^verbatim>\<open>READ_TIMEOUT\<close>.
\<close>

theorem clean_stream_delivered:
  assumes "length (cmdBuf s) = 20"
    and "\<not> has_IPD input" and "\<not> has_CLOSED input" and "\<not> long_IPD input"
  shows "\<exists>out s'. read_all (begin_read s t) input = (out, Inr (READ_TIMEOUT, s', []))
           \<and> out @ pending s' = map of_char input
           \<and> (if cmdState s' = CMD_WAIT then out = map of_char input else pending s' \<noteq> [])"
proof -
  from deframe_clean [OF tracks_WAIT, of input] assms(2-4)
  obtain out st' held' where d: "deframe CMD_WAIT [] input = (out, Inr (READ_TIMEOUT, st', held', []))"
    and o: "out @ held' = input" and tr: "tracks st' held'" by auto
  from read_all_begin [OF assms(1), of t input] d
  have 1: "fst (read_all (begin_read s t) input) = map of_char out"
    and 2: "rel_end (snd (read_all (begin_read s t) input)) (Inr (READ_TIMEOUT, st', held', []))"
    by simp_all
  from rel_end_Inr [OF 2] obtain s' where
    3: "snd (read_all (begin_read s t) input) = Inr (READ_TIMEOUT, s', [])"
    and 4: "holds s' st' held'" and 5: "pending s' = map of_char held'" by blast
  from 1 3 have "read_all (begin_read s t) input = (map of_char out, Inr (READ_TIMEOUT, s', []))"
    by (simp add: prod_eq_iff)
  moreover have "map of_char out @ pending s' = map of_char input"
    using o 5 by (metis map_append)
  moreover have "cmdState s' = CMD_WAIT \<Longrightarrow> map of_char out = map of_char input"
    using holds_WAIT [OF 4] o by auto
  moreover have "cmdState s' \<noteq> CMD_WAIT \<Longrightarrow> pending s' \<noteq> []"
    using 4 5 tracks_nonempty [OF tr] by (auto simp: holds_def)
  ultimately show ?thesis by auto
qed

theorem clean_stream_delivered_witness:
  "length (cmdBuf reader0) = 20 \<and> \<not> has_IPD ''HTTP/1.1 200 OK'' \<and>
   \<not> has_CLOSED ''HTTP/1.1 200 OK'' \<and> \<not> long_IPD ''HTTP/1.1 200 OK'' \<and>
   (\<exists>out s'. read_all (begin_read reader0 0) ''HTTP/1.1 200 OK'' = (out, Inr (READ_TIMEOUT, s', []))
           \<and> out @ pending s' = map of_char ''HTTP/1.1 200 OK''
           \<and> (if cmdState s' = CMD_WAIT then out = map of_char ''HTTP/1.1 200 OK''
               else pending s' \<noteq> []))"
proof -
  have 1: "length (cmdBuf reader0) = 20" by (rule reader0_length)
  have 2: "\<not> has_IPD ''HTTP/1.1 200 OK''" by (simp add: IPD_HEAD_def)
  have 3: "\<not> has_CLOSED ''HTTP/1.1 200 OK''" by (simp add: CLOSED_MSG_def)
  have 4: "\<not> long_IPD ''HTTP/1.1 200 OK''" by (simp add: IPD_HEAD_def)
  from clean_stream_delivered [OF 1 2 3 4, of 0] 1 2 3 4 show ?thesis by simp
qed

text \<open>
  The claim C1 as it is stated fails on a stream that ends in \<^verbatim>\<open>0\<close>: the last byte is
  held back as the possible beginning of \<^verbatim>\<open>0,CLOSED\<close>. It also fails on a head
  \<^verbatim>\<open>\n+IPD,\<close> that no colon follows: the bytes after it are absorbed, and the fifteenth
  is stored past the end of the buffer.
\<close>

theorem clean_stream_counterexample:
  "\<not> has_IPD ''Content-Length: 120'' \<and> \<not> has_CLOSED ''Content-Length: 120'' \<and>
   fst (read_all (begin_read reader0 0) ''Content-Length: 120'') =
     map of_char ''Content-Length: 12'' \<and>
   fst (read_all (begin_read reader0 0) ''Content-Length: 120'') \<noteq>
     map of_char ''Content-Length: 120'' \<and>
   \<not> has_IPD (CHR 0x0A # ''+IPD,123456789012345'') \<and>
   \<not> has_CLOSED (CHR 0x0A # ''+IPD,123456789012345'') \<and>
   observe (read_all (begin_read reader0 0) (CHR 0x0A # ''+IPD,123456789012345'')) =
     ([], Inl (StoreOutOfBounds 20))"
  by (simp add: stream_eval)

subsection \<open>An inserted \<^verbatim>\<open>\n+IPD,<n>:\<close>\<close>

text \<open>
  C2, as the code has it. When the recogniser is idle after the bytes \<open>pre\<close>, a message
  \<^verbatim>\<open>\n+IPD,<n>:\<close> inserted after them, with a field \<open>n\<close> of at most 13 bytes and no colon
  (\<^verbatim>\<open>5\<close>, for one), is removed: the consumer is given the same bytes, and the reading ends
  in the same way, as for the stream \<open>pre @ post\<close> without the message.
\<close>

theorem IPD_elided_when_idle:
  assumes "length (cmdBuf s) = 20" and "idle_after (begin_read s t) pre"
    and "CHR '':'' \<notin> set n" and "length n \<le> 13"
  shows "observe (read_all (begin_read s t) (pre @ IPD_HEAD @ n @ CHR '':'' # post)) =
         observe (read_all (begin_read s t) (pre @ post))"
  by (simp add: observe_begin [OF assms(1)] observe_append [OF assms(1,2)]
      deframe_IPD [OF assms(3,4)])

theorem IPD_elided_when_idle_witness:
  "length (cmdBuf reader0) = 20 \<and> idle_after (begin_read reader0 0) ''AB'' \<and>
   CHR '':'' \<notin> set ''5'' \<and> length ''5'' \<le> 13 \<and>
   observe (read_all (begin_read reader0 0) (''AB'' @ IPD_HEAD @ ''5'' @ CHR '':'' # ''CD'')) =
     (map of_char ''ABCD'', Inr (READ_TIMEOUT, CMD_WAIT, [], []))"
proof -
  have 1: "length (cmdBuf reader0) = 20" by (rule reader0_length)
  have 2: "idle_after (begin_read reader0 0) ''AB''"
    by (simp add: idle_after_observe stream_eval)
  have 3: "CHR '':'' \<notin> set ''5''" by simp
  have 4: "length ''5'' \<le> 13" by simp
  have 5: "observe (read_all (begin_read reader0 0) (''AB'' @ ''CD'')) =
      (map of_char ''ABCD'', Inr (READ_TIMEOUT, CMD_WAIT, [], []))"
    by (simp add: stream_eval)
  from IPD_elided_when_idle [OF 1 2 3 4, of "''CD''"] 1 2 3 4 5 show ?thesis
    by simp
qed

text \<open>
  The claim C2 as it is stated fails in two ways. The filtered stream is compared with the
  stream itself, and not all of a stream is given to the consumer: of \<^verbatim>\<open>A0\<close>, with or
  without the message, the final \<^verbatim>\<open>0\<close> is held back. And the message is not removed
  where it is inserted right after a byte that may begin a message: in \<^verbatim>\<open>A\nB\<close>, which
  read alone is given to the consumer unchanged, \<^verbatim>\<open>\n+IPD,5:\<close> inserted after the
  \<^verbatim>\<open>\n\<close> stays. The inserted \<^verbatim>\<open>\n\<close> ends the match that the first had begun, both are
  handed out, and the rest of the message follows as data.
\<close>

theorem IPD_elided_counterexample:
  "\<not> has_IPD ''A0'' \<and> \<not> has_CLOSED ''A0'' \<and>
   fst (read_all (begin_read reader0 0) (''A'' @ (CHR 0x0A # ''+IPD,5:'') @ ''0'')) =
     map of_char ''A'' \<and>
   fst (read_all (begin_read reader0 0) (''A'' @ (CHR 0x0A # ''+IPD,5:'') @ ''0'')) \<noteq>
     map of_char ''A0'' \<and>
   \<not> has_IPD (''A'' @ [CHR 0x0A] @ ''B'') \<and> \<not> has_CLOSED (''A'' @ [CHR 0x0A] @ ''B'') \<and>
   fst (read_all (begin_read reader0 0) (''A'' @ [CHR 0x0A] @ ''B'')) =
     map of_char (''A'' @ [CHR 0x0A] @ ''B'') \<and>
   fst (read_all (begin_read reader0 0) (''A'' @ [CHR 0x0A] @ (CHR 0x0A # ''+IPD,5:'') @ ''B'')) =
     map of_char (''A'' @ [CHR 0x0A] @ (CHR 0x0A # ''+IPD,5:'') @ ''B'') \<and>
   fst (read_all (begin_read reader0 0) (''A'' @ [CHR 0x0A] @ (CHR 0x0A # ''+IPD,5:'') @ ''B'')) \<noteq>
     map of_char (''A'' @ [CHR 0x0A] @ ''B'')"
  by (simp add: stream_eval)

subsection \<open>The final \<^verbatim>\<open>0,CLOSED\<close>\<close>

text \<open>
  C3, as the code has it. When the recogniser is idle after the bytes \<open>pre\<close>, and
  \<^verbatim>\<open>0,CLOSED\<close> follows them, the consumer is given exactly the bytes that \<open>pre\<close> alone
  gives, then \<^verbatim>\<open>read\<close> returns \<^verbatim>\<open>READ_CLOSED\<close>. It returns it on the \<^verbatim>\<open>D\<close>: the
  client still has all that follows the message. The bytes \<^verbatim>\<open>0,CLOSE\<close> are in the
  buffer and none of them is handed out.
\<close>

theorem CLOSED_when_idle:
  assumes "length (cmdBuf s) = 20" and "idle_after (begin_read s t) pre"
  shows "observe (read_all (begin_read s t) (pre @ CLOSED_MSG @ post)) =
         (fst (read_all (begin_read s t) pre),
          Inr (READ_CLOSED, CMD_0_CLOSE, map of_char ''0,CLOSE'', post))"
proof -
  have "fst (read_all (begin_read s t) pre) = map of_char (fst (deframe CMD_WAIT [] pre))"
    by (rule read_all_begin(1) [OF assms(1)])
  then show ?thesis
    by (simp add: observe_begin [OF assms(1)] observe_append [OF assms(1,2)]
        deframe_CLOSED deframe_obs_def)
qed

theorem CLOSED_when_idle_witness:
  "length (cmdBuf reader0) = 20 \<and> idle_after (begin_read reader0 0) ''</html>'' \<and>
   observe (read_all (begin_read reader0 0) (''</html>'' @ CLOSED_MSG @ [])) =
     (map of_char ''</html>'', Inr (READ_CLOSED, CMD_0_CLOSE, map of_char ''0,CLOSE'', []))"
proof -
  have 1: "length (cmdBuf reader0) = 20" by (rule reader0_length)
  have 2: "idle_after (begin_read reader0 0) ''</html>''"
    by (simp add: idle_after_observe stream_eval)
  have 3: "fst (read_all (begin_read reader0 0) ''</html>'') = map of_char ''</html>''"
    by (simp add: stream_eval)
  from CLOSED_when_idle [OF 1 2, of "[]"] 1 2 3 show ?thesis
    by simp
qed

text \<open>
  The claim C3 as it is stated fails in two ways. \<^verbatim>\<open>read\<close> returns \<^verbatim>\<open>READ_CLOSED\<close> on
  the first \<^verbatim>\<open>0,CLOSED\<close> that it recognises: of \<^verbatim>\<open>A0,CLOSEDB0,CLOSED\<close> the consumer is
  given \<^verbatim>\<open>A\<close>, and the \<^verbatim>\<open>B\<close> before the final message is never read. And
  \<^verbatim>\<open>0,CLOSED\<close> is not recognised when the byte before it may begin a message, as in a
  body that ends with a newline: the \<^verbatim>\<open>0\<close> ends the match that the \<^verbatim>\<open>\n\<close> had begun,
  every byte of \<^verbatim>\<open>0,CLOSED\<close> is given to the consumer and \<^verbatim>\<open>read\<close> ends with
  \<^verbatim>\<open>READ_TIMEOUT\<close>, never with \<^verbatim>\<open>READ_CLOSED\<close>.
\<close>

theorem CLOSED_counterexample:
  "observe (read_all (begin_read reader0 0) (''A0,CLOSEDB'' @ ''0,CLOSED'')) =
     (map of_char ''A'',
      Inr (READ_CLOSED, CMD_0_CLOSE, map of_char ''0,CLOSE'', ''B0,CLOSED'')) \<and>
   observe (read_all (begin_read reader0 0) (''</html>'' @ [CHR 0x0A] @ ''0,CLOSED'')) =
     (map of_char (''</html>'' @ [CHR 0x0A] @ ''0,CLOSED''),
      Inr (READ_TIMEOUT, CMD_WAIT, [], []))"
  by (simp add: stream_eval)

subsection \<open>A match that fails\<close>

text \<open>
  C4. When the recogniser is idle after \<open>pre\<close> and the next bytes \<open>p\<close> begin a message that
  the byte \<open>c\<close> refutes, the consumer is given what \<open>pre\<close> gives, then the bytes of \<open>p\<close> and
  \<open>c\<close> themselves, in their order, then what the rest \<open>post\<close> of the stream gives, read from
  the idle state. For \<^verbatim>\<open>A\n+IPXB\<close> these are the bytes of the stream, unchanged.
\<close>

theorem failed_match_flushed:
  assumes "length (cmdBuf s) = 20" and "idle_after (begin_read s t) pre"
    and "failed_match p c"
  shows "observe (read_all (begin_read s t) (pre @ p @ c # post)) =
     (fst (read_all (begin_read s t) pre) @ map of_char (p @ [c])
        @ fst (read_all (begin_read s t) post),
      outcome (snd (read_all (begin_read s t) post)))"
proof -
  from failed_match_lit [OF assms(3)] obtain st where
    st: "p = lit st" "st \<noteq> CMD_WAIT" "st \<noteq> CMD_COMMA" "delta st c = Flush" by blast
  have 1: "fst (read_all (begin_read s t) pre) = map of_char (fst (deframe CMD_WAIT [] pre))"
    by (rule read_all_begin(1) [OF assms(1)])
  have 2: "(fst (read_all (begin_read s t) post), outcome (snd (read_all (begin_read s t) post)))
      = deframe_obs (deframe CMD_WAIT [] post)"
    using observe_begin [OF assms(1), of t post] by (simp add: observe_def)
  obtain o2 e2 where d: "deframe CMD_WAIT [] post = (o2, e2)" by force
  from 2 d have 3: "fst (read_all (begin_read s t) post) = map of_char o2"
    and 4: "outcome (snd (read_all (begin_read s t) post)) = snd (deframe_obs (o2, e2))"
    by (simp_all add: deframe_obs_def)
  show ?thesis
    by (simp add: observe_begin [OF assms(1)] observe_append [OF assms(1,2)] st(1)
        deframe_lit_flush [OF st(2-4)] d 1 3 4 deframe_obs_def)
qed

theorem failed_match_flushed_witness:
  "length (cmdBuf reader0) = 20 \<and> idle_after (begin_read reader0 0) ''A'' \<and>
   failed_match (CHR 0x0A # ''+IP'') CHR ''X'' \<and>
   observe (read_all (begin_read reader0 0) (''A'' @ (CHR 0x0A # ''+IP'') @ CHR ''X'' # ''B'')) =
     (map of_char (''A'' @ (CHR 0x0A # ''+IP'') @ CHR ''X'' # ''B''),
      Inr (READ_TIMEOUT, CMD_WAIT, [], []))"
proof -
  have 1: "length (cmdBuf reader0) = 20" by (rule reader0_length)
  have 2: "idle_after (begin_read reader0 0) ''A''"
    by (simp add: idle_after_observe stream_eval)
  have 3: "failed_match (CHR 0x0A # ''+IP'') CHR ''X''"
    by (simp add: failed_match_def IPD_HEAD_def CLOSED_MSG_def)
  have 4: "fst (read_all (begin_read reader0 0) ''A'') = map of_char ''A''"
    by (simp add: stream_eval)
  have 5: "observe (read_all (begin_read reader0 0) ''B'') =
      (map of_char ''B'', Inr (READ_TIMEOUT, CMD_WAIT, [], []))"
    by (simp add: stream_eval)
  from 5 have 6: "fst (read_all (begin_read reader0 0) ''B'') = map of_char ''B''"
    and 7: "outcome (snd (read_all (begin_read reader0 0) ''B'')) = Inr (READ_TIMEOUT, CMD_WAIT, [], [])"
    by (simp_all add: observe_def)
  from failed_match_flushed [OF 1 2 3, of "''B''"] 1 2 3 show ?thesis
    by (simp add: 4 6 7)
qed

subsection \<open>The capacity of the buffer\<close>

text \<open>
  The bytes held grow by one with each byte absorbed, so the first access outside the
  buffer, if there is one, is the store at index 20.
\<close>

lemma deframe_fault:
  "length held \<le> 20 \<Longrightarrow> deframe st held xs = (out, Inl f) \<Longrightarrow> f = StoreOutOfBounds 20"
proof (induction xs arbitrary: st held out)
  case Nil
  then show ?case by simp
next
  case (Cons b xs)
  show ?case
  proof (cases "20 \<le> length held")
    case True
    with Cons.prems show ?thesis by simp
  next
    case False
    show ?thesis
    proof (cases "delta st b")
      case (Advance st2)
      with Cons.prems False Cons.IH [of "held @ [b]" st2 out] show ?thesis by simp
    next
      case Flush
      obtain o1 e1 where d: "deframe CMD_WAIT [] xs = (o1, e1)" by force
      with Cons.prems Flush False have "e1 = Inl f" by simp
      with Cons.IH [of "[]" CMD_WAIT o1] d show ?thesis by simp
    next
      case Skip
      with Cons.prems False Cons.IH [of "[]" CMD_WAIT out] show ?thesis by simp
    next
      case Close
      with Cons.prems False show ?thesis by simp
    qed
  qed
qed

text \<open>
  C9. Some stream makes \<^verbatim>\<open>read\<close> store a byte at index 20 of the buffer, one past its
  last entry: the head \<^verbatim>\<open>\n+IPD,\<close> followed by 14 bytes that are no colon and by one
  more byte, whatever comes after. And for every stream in which no head is followed by
  14 bytes without a colon and then by yet another byte, reading to the end meets no
  fault: every access to the buffer is within its 20 entries. No stream leads to any
  other fault than this store.
\<close>

theorem cmdBuf_overflow:
  assumes "length (cmdBuf s) = 20"
  shows "(\<exists>input out. read_all (begin_read s t) input = (out, Inl (StoreOutOfBounds 20))) \<and>
         (\<forall>n b rest. length n = 14 \<and> CHR '':'' \<notin> set n \<longrightarrow>
            read_all (begin_read s t) (IPD_HEAD @ n @ b # rest) =
              ([], Inl (StoreOutOfBounds 20))) \<and>
         (\<forall>input. \<not> long_IPD input \<longrightarrow>
            (\<exists>out r s' src'. read_all (begin_read s t) input = (out, Inr (r, s', src')))) \<and>
         (\<forall>input out f. read_all (begin_read s t) input = (out, Inl f) \<longrightarrow>
            f = StoreOutOfBounds 20)"
proof (intro conjI allI impI)
  have long: "read_all (begin_read s t) (IPD_HEAD @ n @ b # rest) =
      ([], Inl (StoreOutOfBounds 20))"
    if "length n = 14 \<and> CHR '':'' \<notin> set n" for n b rest
  proof -
    from that have "deframe CMD_WAIT [] (IPD_HEAD @ n @ b # rest) =
        ([], Inl (StoreOutOfBounds 20))"
      by (intro deframe_IPD_long) simp_all
    with read_all_begin [OF assms, of t "IPD_HEAD @ n @ b # rest"]
    show ?thesis by (simp add: rel_end_def prod_eq_iff)
  qed
  from long [of "''12345678901234''" "CHR ''5''" "[]"]
  show "\<exists>input out. read_all (begin_read s t) input = (out, Inl (StoreOutOfBounds 20))"
    by (intro exI) simp
  fix n :: "char list" and b rest
  assume "length n = 14 \<and> CHR '':'' \<notin> set n"
  then show "read_all (begin_read s t) (IPD_HEAD @ n @ b # rest) =
      ([], Inl (StoreOutOfBounds 20))"
    by (rule long)
next
  fix input
  assume "\<not> long_IPD input"
  with deframe_no_fault [OF tracks_WAIT, of input]
  obtain out r st' held' src' where d: "deframe CMD_WAIT [] input = (out, Inr (r, st', held', src'))"
    by auto
  with read_all_begin [OF assms, of t input]
  obtain s' where "snd (read_all (begin_read s t) input) = Inr (r, s', src')"
    by (auto simp: rel_end_def)
  then show "\<exists>out r s' src'. read_all (begin_read s t) input = (out, Inr (r, s', src'))"
    by (metis prod.collapse)
next
  fix input out f
  assume f: "read_all (begin_read s t) input = (out, Inl f)"
  obtain o1 e1 where d: "deframe CMD_WAIT [] input = (o1, e1)" by force
  from read_all_begin(2) [OF assms, of t input] f d have "rel_end (Inl f) e1" by simp
  then have "e1 = Inl f" by (cases e1) (auto simp: rel_end_def)
  with d deframe_fault [of "[]" CMD_WAIT input o1 f] show "f = StoreOutOfBounds 20" by simp
qed

theorem cmdBuf_overflow_witness:
  "length (cmdBuf reader0) = 20 \<and>
   length ''12345678901234'' = 14 \<and> CHR '':'' \<notin> set ''12345678901234'' \<and>
   read_all (begin_read reader0 0) (IPD_HEAD @ ''12345678901234'' @ CHR ''5'' # []) =
     ([], Inl (StoreOutOfBounds 20)) \<and>
   \<not> long_IPD (CHR 0x0A # ''+IPD,0,1475:<html>'') \<and>
   (\<exists>out r s' src'. read_all (begin_read reader0 0) (CHR 0x0A # ''+IPD,0,1475:<html>'') =
       (out, Inr (r, s', src')))"
proof -
  have 1: "length (cmdBuf reader0) = 20" by (rule reader0_length)
  have 2: "\<not> long_IPD (CHR 0x0A # ''+IPD,0,1475:<html>'')" by (simp add: IPD_HEAD_def)
  have 3: "length ''12345678901234'' = 14 \<and> CHR '':'' \<notin> set ''12345678901234''" by simp
  from cmdBuf_overflow [OF 1, of 0] 1 2 3 show ?thesis by blast
qed

section \<open>The invariant of the buffer\<close>

text \<open>
  \<open>spec_invariant\<close> is the invariant in the words of the specification: the read position
  is at most the write position, and they are equal whenever the recogniser is idle.
  \<open>cmd_invariant\<close> is the invariant of the code: both positions are within the buffer,
  the read position is at most the write position, and they are equal whenever a message
  is being recognised. \<open>reachable\<close> are the states between the calls of a user of the
  class, as long as no call has stored a byte outside the buffer: the new object, whose
  two positions are 0, the state after \<^verbatim>\<open>begin\<close>, and the state after any of the operations
  that has returned without a fault, on any client. \<^verbatim>\<open>read\<close> does not test the write
  position before it stores a byte, and a store at index 20 writes over whatever follows
  the array; the state of the object after such a store is not described here, and no
  state is reachable through it.
\<close>

definition spec_invariant :: "ESP8266HttpRead \<Rightarrow> bool" where
  "spec_invariant s \<longleftrightarrow>
     nextOut s \<le> nextIn s \<and> (cmdState s = CMD_WAIT \<longrightarrow> nextOut s = nextIn s)"

definition cmd_invariant :: "ESP8266HttpRead \<Rightarrow> bool" where
  "cmd_invariant s \<longleftrightarrow>
     0 \<le> nextOut s \<and> nextOut s \<le> nextIn s \<and> nextIn s \<le> CMD_BUF_SIZE \<and>
     (cmdState s \<noteq> CMD_WAIT \<longrightarrow> nextOut s = nextIn s)"

inductive reachable :: "ESP8266HttpRead \<Rightarrow> bool" where
  r_new: "nextIn s = 0 \<Longrightarrow> nextOut s = 0 \<Longrightarrow> reachable s"
| r_begin: "reachable (begin_read s t)"
| r_read: "reachable s \<Longrightarrow> read s src = Inr (ch, s', src') \<Longrightarrow> reachable s'"
| r_read_buf: "reachable s \<Longrightarrow> read_buf count s src = Inr (ok, buf, s', src') \<Longrightarrow> reachable s'"
| r_find: "reachable s \<Longrightarrow> find_pattern ppattern s src = Inr (ok, s', src') \<Longrightarrow> reachable s'"
| r_findDate: "reachable s \<Longrightarrow> findDate s src = Inr (ok, dt, s', src') \<Longrightarrow> reachable s'"
| r_readDouble: "reachable s \<Longrightarrow> readDouble s src = Inr (r, s', src') \<Longrightarrow> reachable s'"
| r_end: "reachable s \<Longrightarrow> reachable (end_read s)"

lemma cmd_invariant_begin: "cmd_invariant (begin_read s t)"
  by (simp add: cmd_invariant_def begin_read_def CMD_BUF_SIZE_def)

lemma cmd_invariant_end: "cmd_invariant s \<Longrightarrow> cmd_invariant (end_read s)"
  by (simp add: cmd_invariant_def end_read_def)

lemma cmd_invariant_reset: "cmd_invariant s \<Longrightarrow> cmd_invariant (cmd_reset s)"
  by (simp add: cmd_invariant_def cmd_reset_def CMD_BUF_SIZE_def)

lemma cmd_invariant_switch:
  "cmd_invariant s \<Longrightarrow> nextIn s < CMD_BUF_SIZE \<Longrightarrow> cmd_switch s = Some s' \<Longrightarrow>
     cmd_invariant s'"
  by (cases "cmdState s")
    (auto simp: cmd_switch_def advanceIf_def cmd_invariant_def CMD_BUF_SIZE_def split: if_splits)

lemma cmd_invariant_read_loop:
  "cmd_invariant s \<Longrightarrow> read_loop s src = Inr (ch, s', src') \<Longrightarrow> cmd_invariant s'"
proof (induction s src rule: read_loop.induct)
  case (1 s src)
  show ?case
  proof (cases "nextOut s < nextIn s")
    case True
    with "1.prems" show ?thesis
      by (auto simp: read_loop_flush cmd_invariant_def split: if_splits)
  next
    case False
    define s1 where "s1 = cmd_reset s"
    have inv1: "cmd_invariant s1"
      unfolding s1_def by (rule cmd_invariant_reset [OF "1.prems"(1)])
    show ?thesis
    proof (cases src)
      case Nil
      with False "1.prems" inv1 show ?thesis
        by (auto simp: read_loop_Nil s1_def)
    next
      case (Cons b rest)
      define s2 where "s2 = s1\<lparr>cmdBuf := (cmdBuf s1)[nat (nextIn s1) := of_char b]\<rparr>"
      have inv2: "cmd_invariant s2"
        using inv1 by (simp add: s2_def cmd_invariant_def)
      have eq: "read_loop s (b # rest) =
          (if 0 \<le> nextIn s1 \<and> nextIn s1 < CMD_BUF_SIZE then
             (case cmd_switch s2 of
                None \<Rightarrow> Inr (READ_CLOSED, s2, rest)
              | Some s3 \<Rightarrow> read_loop s3 rest)
           else Inl (StoreOutOfBounds (nextIn s1)))"
        unfolding s2_def s1_def by (simp add: read_loop_Cons [OF False] Let_def)
      from Cons "1.prems" have inb: "0 \<le> nextIn s1 \<and> nextIn s1 < CMD_BUF_SIZE"
        by (auto simp: eq split: if_splits)
      show ?thesis
      proof (cases "cmd_switch s2")
        case None
        with Cons inb "1.prems" inv2 show ?thesis
          by (auto simp: eq)
      next
        case (Some s3)
        with Cons inb "1.prems" have rd: "read_loop s3 rest = Inr (ch, s', src')"
          by (auto simp: eq)
        have "cmd_invariant s3"
          using cmd_invariant_switch [OF inv2 _ Some] inb by (simp add: s2_def)
        from "1.IH" [OF False s1_def Cons inb s2_def Some this rd] show ?thesis .
      qed
    qed
  qed
qed

lemma cmd_invariant_read:
  "cmd_invariant s \<Longrightarrow> read s src = Inr (ch, s', src') \<Longrightarrow> cmd_invariant s'"
  using cmd_invariant_read_loop [of s src ch s' src']
  by (auto simp: read_def split: if_splits)

lemma cmd_invariant_read_buf:
  "cmd_invariant s \<Longrightarrow> read_buf count s src = Inr (ok, buf, s', src') \<Longrightarrow> cmd_invariant s'"
proof (induction count arbitrary: s src ok buf)
  case 0
  then show ?case by simp
next
  case (Suc count)
  from Suc.prems(2) obtain ch s1 src1 where rd: "read s src = Inr (ch, s1, src1)"
    by (auto split: sum.splits)
  note inv1 = cmd_invariant_read [OF Suc.prems(1) rd]
  show ?case
  proof (cases "ch < 0")
    case True
    with Suc.prems(2) rd inv1 show ?thesis by simp
  next
    case False
    with Suc.prems(2) rd obtain ok1 buf1 where "read_buf count s1 src1 = Inr (ok1, buf1, s', src')"
      by (auto split: sum.splits)
    from Suc.IH [OF inv1 this] show ?thesis .
  qed
qed

lemma find_loop_Nil: "find_loop ppattern [] s src = Inr (True, s, src)"
  by (simp add: find_loop.simps [of ppattern "[]" s src])

lemma find_loop_Cons:
  "find_loop ppattern (c # p') s src =
     (case read s src of
        Inl f \<Rightarrow> Inl f
      | Inr (ch, s', src') \<Rightarrow>
          if ch < 0 then Inr (False, s', src')
          else if char_of ch = c then find_loop ppattern p' s' src'
          else find_loop ppattern ppattern s' src')"
  by (simp add: find_loop.simps [of ppattern "c # p'" s src])

lemma cmd_invariant_find_loop:
  "cmd_invariant s \<Longrightarrow> find_loop ppattern p s src = Inr (ok, s', src') \<Longrightarrow> cmd_invariant s'"
proof (induction ppattern p s src rule: find_loop.induct)
  case (1 ppattern p s src)
  show ?case
  proof (cases p)
    case Nil
    with "1.prems" show ?thesis by (simp add: find_loop_Nil)
  next
    case (Cons c p')
    with "1.prems"(2) obtain ch s1 src1 where rd: "read s src = Inr (ch, s1, src1)"
      by (auto simp: find_loop_Cons split: sum.splits)
    note inv1 = cmd_invariant_read [OF "1.prems"(1) rd]
    show ?thesis
    proof (cases "ch < 0")
      case True
      with "1.prems"(2) Cons rd inv1 show ?thesis
        by (simp add: find_loop_Cons)
    next
      case False
      show ?thesis
      proof (cases "char_of ch = c")
        case True
        with "1.prems"(2) Cons rd \<open>\<not> ch < 0\<close>
        have "find_loop ppattern p' s1 src1 = Inr (ok, s', src')"
          by (simp add: find_loop_Cons)
        from "1.IH"(1) [OF Cons rd refl refl False True inv1 this] show ?thesis .
      next
        case neq: False
        with "1.prems"(2) Cons rd \<open>\<not> ch < 0\<close>
        have "find_loop ppattern ppattern s1 src1 = Inr (ok, s', src')"
          by (simp add: find_loop_Cons)
        from "1.IH"(2) [OF Cons rd refl refl False neq inv1 this] show ?thesis .
      qed
    qed
  qed
qed

lemma readDouble_int_inv:
  "cmd_invariant s \<Longrightarrow> readDouble_int result saw s src = Inr (r, w, ch, s', src') \<Longrightarrow>
     cmd_invariant s'"
proof (induction result saw s src rule: readDouble_int.induct)
  case (1 result saw s src)
  from "1.prems"(2) obtain c s1 src1 where rd: "read s src = Inr (c, s1, src1)"
    by (auto simp: readDouble_int.simps [of result saw s src] split: sum.splits)
  note inv1 = cmd_invariant_read [OF "1.prems"(1) rd]
  show ?case
  proof (cases "is_digit (char_of c)")
    case True
    with "1.prems"(2) rd
    have "readDouble_int (dadd (dmul result (Finite 10)) (double_of_int (digit_val (char_of c))))
        True s1 src1 = Inr (r, w, ch, s', src')"
      by (simp add: readDouble_int.simps [of result saw s src])
    from "1.IH" [OF rd refl refl True inv1 this] show ?thesis .
  next
    case False
    with "1.prems"(2) rd inv1 show ?thesis
      by (simp add: readDouble_int.simps [of result saw s src])
  qed
qed

lemma readDouble_frac_inv:
  "cmd_invariant s \<Longrightarrow>
   readDouble_frac result scale saw s src = Inr (r, w, ch, s', src') \<Longrightarrow> cmd_invariant s'"
proof (induction result scale saw s src rule: readDouble_frac.induct)
  case (1 result scale saw s src)
  from "1.prems"(2) obtain c s1 src1 where rd: "read s src = Inr (c, s1, src1)"
    by (auto simp: readDouble_frac.simps [of result scale saw s src] split: sum.splits)
  note inv1 = cmd_invariant_read [OF "1.prems"(1) rd]
  show ?case
  proof (cases "is_digit (char_of c)")
    case True
    with "1.prems"(2) rd
    have "readDouble_frac (dadd result (dmul scale (double_of_int (digit_val (char_of c)))))
        (ddiv scale (Finite 10)) True s1 src1 = Inr (r, w, ch, s', src')"
      by (simp add: readDouble_frac.simps [of result scale saw s src])
    from "1.IH" [OF rd refl refl True inv1 this] show ?thesis .
  next
    case False
    with "1.prems"(2) rd inv1 show ?thesis
      by (simp add: readDouble_frac.simps [of result scale saw s src])
  qed
qed

lemma cmd_invariant_readDouble:
  assumes "cmd_invariant s" and "readDouble s src = Inr (r, s', src')"
  shows "cmd_invariant s'"
proof -
  from assms(2) obtain r1 w1 ch1 s1 src1 where
    1: "readDouble_int (Finite 0) False s src = Inr (r1, w1, ch1, s1, src1)"
    by (auto simp: readDouble_def split: sum.splits)
  note inv1 = readDouble_int_inv [OF assms(1) 1]
  show ?thesis
  proof (cases "ch1 < 0 \<or> ch1 \<noteq> of_char CHR ''.''")
    case True
    with assms(2) 1 inv1 show ?thesis
      by (auto simp: readDouble_def split: if_splits)
  next
    case False
    with assms(2) 1 obtain r2 w2 ch2 s2 src2 where
      2: "readDouble_frac r1 (round_double (1 / 10)) w1 s1 src1 = Inr (r2, w2, ch2, s2, src2)"
      by (auto simp: readDouble_def split: sum.splits if_splits)
    note inv2 = readDouble_frac_inv [OF inv1 2]
    with assms(2) 1 2 False show ?thesis
      by (auto simp: readDouble_def split: if_splits)
  qed
qed

definition keeps :: "(ESP8266HttpRead \<Rightarrow> char list \<Rightarrow> date_result) \<Rightarrow> bool" where
  "keeps k \<longleftrightarrow>
     (\<forall>s src ok dt s' src'.
        cmd_invariant s \<longrightarrow> k s src = Inr (ok, dt, s', src') \<longrightarrow> cmd_invariant s')"

lemma keepsD:
  "keeps k \<Longrightarrow> cmd_invariant s \<Longrightarrow> k s src = Inr (ok, dt, s', src') \<Longrightarrow> cmd_invariant s'"
  unfolding keeps_def by blast

lemma keeps_find:
  assumes "keeps k"
  shows "keeps (find_or_fail ppattern dt k)"
  unfolding keeps_def
proof (intro allI impI)
  fix s src ok d s' src'
  assume inv: "cmd_invariant s"
    and r: "find_or_fail ppattern dt k s src = Inr (ok, d, s', src')"
  from r obtain found s1 src1 where
    f: "find_loop ppattern ppattern s src = Inr (found, s1, src1)"
    by (auto simp: find_or_fail_def find_pattern_def split: sum.splits)
  note inv1 = cmd_invariant_find_loop [OF inv f]
  show "cmd_invariant s'"
  proof (cases found)
    case True
    with r f have "k s1 src1 = Inr (ok, d, s', src')"
      by (simp add: find_or_fail_def find_pattern_def)
    from keepsD [OF assms inv1 this] show ?thesis .
  next
    case False
    with r f inv1 show ?thesis by (simp add: find_or_fail_def find_pattern_def)
  qed
qed

lemma keeps_read:
  assumes "\<And>buf. keeps (k buf)"
  shows "keeps (read_or_fail count dt k)"
  unfolding keeps_def
proof (intro allI impI)
  fix s src ok d s' src'
  assume inv: "cmd_invariant s"
    and r: "read_or_fail count dt k s src = Inr (ok, d, s', src')"
  from r obtain ok1 buf s1 src1 where f: "read_buf count s src = Inr (ok1, buf, s1, src1)"
    by (auto simp: read_or_fail_def split: sum.splits)
  note inv1 = cmd_invariant_read_buf [OF inv f]
  show "cmd_invariant s'"
  proof (cases ok1)
    case True
    with r f have "k buf s1 src1 = Inr (ok, d, s', src')"
      by (simp add: read_or_fail_def)
    from keepsD [OF assms inv1 this] show ?thesis .
  next
    case False
    with r f inv1 show ?thesis by (simp add: read_or_fail_def)
  qed
qed

lemma keeps_skip:
  assumes "keeps k"
  shows "keeps (skip_or_fail dt k)"
  unfolding keeps_def
proof (intro allI impI)
  fix s src ok d s' src'
  assume inv: "cmd_invariant s"
    and r: "skip_or_fail dt k s src = Inr (ok, d, s', src')"
  from r obtain ch s1 src1 where f: "read s src = Inr (ch, s1, src1)"
    by (auto simp: skip_or_fail_def split: sum.splits)
  note inv1 = cmd_invariant_read [OF inv f]
  show "cmd_invariant s'"
  proof (cases "ch < 0")
    case False
    with r f have "k s1 src1 = Inr (ok, d, s', src')"
      by (simp add: skip_or_fail_def)
    from keepsD [OF assms inv1 this] show ?thesis .
  next
    case True
    with r f inv1 show ?thesis by (simp add: skip_or_fail_def)
  qed
qed

lemma keeps_value:
  assumes "\<And>v. keeps (k v)"
  shows "keeps (value_or_fail x dt k)"
  unfolding keeps_def
proof (intro allI impI)
  fix s src ok d s' src'
  assume inv: "cmd_invariant s"
    and r: "value_or_fail x dt k s src = Inr (ok, d, s', src')"
  show "cmd_invariant s'"
  proof (cases x)
    case None
    with r inv show ?thesis by (simp add: value_or_fail_def)
  next
    case (Some v)
    with r have "k v s src = Inr (ok, d, s', src')" by (simp add: value_or_fail_def)
    from keepsD [OF assms inv this] show ?thesis .
  qed
qed

lemma keeps_return: "keeps (\<lambda>s src. if c then Inr (a, dt, s, src) else Inr (b, dt, s, src))"
  unfolding keeps_def by auto

lemma cmd_invariant_findDate:
  assumes "cmd_invariant s" and "findDate s src = Inr (ok, dt, s', src')"
  shows "cmd_invariant s'"
proof -
  have "keeps findDate"
    unfolding findDate_def Let_def
    by (intro keeps_find keeps_read keeps_skip keeps_value keeps_return)
  with assms show ?thesis unfolding keeps_def by blast
qed

text \<open>
  A call made in a state with the invariant of the code fails in one way only, by the
  store at index 20 of the buffer: the read position is within the bytes that were
  stored, so no byte is ever taken from outside the buffer.
\<close>

lemma read_loop_fault:
  "cmd_invariant s \<Longrightarrow> read_loop s src = Inl f \<Longrightarrow> f = StoreOutOfBounds CMD_BUF_SIZE"
proof (induction s src rule: read_loop.induct)
  case (1 s src)
  show ?case
  proof (cases "nextOut s < nextIn s")
    case True
    with "1.prems" show ?thesis
      by (auto simp: read_loop_flush cmd_invariant_def split: if_splits)
  next
    case False
    define s1 where "s1 = cmd_reset s"
    have inv1: "cmd_invariant s1"
      unfolding s1_def by (rule cmd_invariant_reset [OF "1.prems"(1)])
    show ?thesis
    proof (cases src)
      case Nil
      with False "1.prems" show ?thesis
        by (auto simp: read_loop_Nil)
    next
      case (Cons b rest)
      define s2 where "s2 = s1\<lparr>cmdBuf := (cmdBuf s1)[nat (nextIn s1) := of_char b]\<rparr>"
      have inv2: "cmd_invariant s2"
        using inv1 by (simp add: s2_def cmd_invariant_def)
      have eq: "read_loop s (b # rest) =
          (if 0 \<le> nextIn s1 \<and> nextIn s1 < CMD_BUF_SIZE then
             (case cmd_switch s2 of
                None \<Rightarrow> Inr (READ_CLOSED, s2, rest)
              | Some s3 \<Rightarrow> read_loop s3 rest)
           else Inl (StoreOutOfBounds (nextIn s1)))"
        unfolding s2_def s1_def by (simp add: read_loop_Cons [OF False] Let_def)
      show ?thesis
      proof (cases "0 \<le> nextIn s1 \<and> nextIn s1 < CMD_BUF_SIZE")
        case inb: True
        show ?thesis
        proof (cases "cmd_switch s2")
          case None
          with Cons inb "1.prems" show ?thesis
            by (auto simp: eq)
        next
          case (Some s3)
          with Cons inb "1.prems" have rd: "read_loop s3 rest = Inl f"
            by (auto simp: eq)
          have "cmd_invariant s3"
            using cmd_invariant_switch [OF inv2 _ Some] inb by (simp add: s2_def)
          from "1.IH" [OF False s1_def Cons inb s2_def Some this rd] show ?thesis .
        qed
      next
        case oob: False
        with inv1 have "nextIn s1 = CMD_BUF_SIZE" by (auto simp: cmd_invariant_def)
        with Cons oob "1.prems" show ?thesis by (auto simp: eq)
      qed
    qed
  qed
qed

lemma read_fault:
  "cmd_invariant s \<Longrightarrow> read s src = Inl f \<Longrightarrow> f = StoreOutOfBounds CMD_BUF_SIZE"
  using read_loop_fault [of s src f]
  by (auto simp: read_def split: if_splits)

lemma read_buf_fault:
  "cmd_invariant s \<Longrightarrow> read_buf count s src = Inl f \<Longrightarrow> f = StoreOutOfBounds CMD_BUF_SIZE"
proof (induction count arbitrary: s src)
  case 0
  then show ?case by simp
next
  case (Suc count)
  show ?case
  proof (cases "read s src")
    case (Inl g)
    with Suc.prems(2) have "g = f" by simp
    with read_fault [OF Suc.prems(1) Inl] show ?thesis by simp
  next
    case (Inr x)
    then obtain ch s1 src1 where rd: "read s src = Inr (ch, s1, src1)"
      by (cases x) auto
    note inv1 = cmd_invariant_read [OF Suc.prems(1) rd]
    from Suc.prems(2) rd have "read_buf count s1 src1 = Inl f"
      by (auto split: if_splits sum.splits)
    from Suc.IH [OF inv1 this] show ?thesis .
  qed
qed

lemma find_loop_fault:
  "cmd_invariant s \<Longrightarrow> find_loop ppattern p s src = Inl f \<Longrightarrow>
     f = StoreOutOfBounds CMD_BUF_SIZE"
proof (induction ppattern p s src rule: find_loop.induct)
  case (1 ppattern p s src)
  show ?case
  proof (cases p)
    case Nil
    with "1.prems" show ?thesis by (simp add: find_loop_Nil)
  next
    case (Cons c p')
    show ?thesis
    proof (cases "read s src")
      case (Inl g)
      with "1.prems"(2) Cons have "g = f" by (simp add: find_loop_Cons)
      with read_fault [OF "1.prems"(1) Inl] show ?thesis by simp
    next
      case (Inr x)
      then obtain ch s1 src1 where rd: "read s src = Inr (ch, s1, src1)"
        by (cases x) auto
      note inv1 = cmd_invariant_read [OF "1.prems"(1) rd]
      from "1.prems"(2) Cons rd have nneg: "\<not> ch < 0"
        by (auto simp: find_loop_Cons split: if_splits)
      show ?thesis
      proof (cases "char_of ch = c")
        case True
        with "1.prems"(2) Cons rd nneg
        have "find_loop ppattern p' s1 src1 = Inl f"
          by (simp add: find_loop_Cons)
        from "1.IH"(1) [OF Cons rd refl refl nneg True inv1 this] show ?thesis .
      next
        case neq: False
        with "1.prems"(2) Cons rd nneg
        have "find_loop ppattern ppattern s1 src1 = Inl f"
          by (simp add: find_loop_Cons)
        from "1.IH"(2) [OF Cons rd refl refl nneg neq inv1 this] show ?thesis .
      qed
    qed
  qed
qed

lemma readDouble_int_fault:
  "cmd_invariant s \<Longrightarrow> readDouble_int result saw s src = Inl f \<Longrightarrow>
     f = StoreOutOfBounds CMD_BUF_SIZE"
proof (induction result saw s src rule: readDouble_int.induct)
  case (1 result saw s src)
  show ?case
  proof (cases "read s src")
    case (Inl g)
    with "1.prems"(2) have "g = f" by (simp add: readDouble_int.simps [of result saw s src])
    with read_fault [OF "1.prems"(1) Inl] show ?thesis by simp
  next
    case (Inr x)
    then obtain c s1 src1 where rd: "read s src = Inr (c, s1, src1)"
      by (cases x) auto
    note inv1 = cmd_invariant_read [OF "1.prems"(1) rd]
    from "1.prems"(2) rd have dg: "is_digit (char_of c)"
      by (auto simp: readDouble_int.simps [of result saw s src] split: if_splits)
    with "1.prems"(2) rd
    have "readDouble_int (dadd (dmul result (Finite 10)) (double_of_int (digit_val (char_of c))))
        True s1 src1 = Inl f"
      by (simp add: readDouble_int.simps [of result saw s src])
    from "1.IH" [OF rd refl refl dg inv1 this] show ?thesis .
  qed
qed

lemma readDouble_frac_fault:
  "cmd_invariant s \<Longrightarrow> readDouble_frac result scale saw s src = Inl f \<Longrightarrow>
     f = StoreOutOfBounds CMD_BUF_SIZE"
proof (induction result scale saw s src rule: readDouble_frac.induct)
  case (1 result scale saw s src)
  show ?case
  proof (cases "read s src")
    case (Inl g)
    with "1.prems"(2) have "g = f"
      by (simp add: readDouble_frac.simps [of result scale saw s src])
    with read_fault [OF "1.prems"(1) Inl] show ?thesis by simp
  next
    case (Inr x)
    then obtain c s1 src1 where rd: "read s src = Inr (c, s1, src1)"
      by (cases x) auto
    note inv1 = cmd_invariant_read [OF "1.prems"(1) rd]
    from "1.prems"(2) rd have dg: "is_digit (char_of c)"
      by (auto simp: readDouble_frac.simps [of result scale saw s src] split: if_splits)
    with "1.prems"(2) rd
    have "readDouble_frac (dadd result (dmul scale (double_of_int (digit_val (char_of c)))))
        (ddiv scale (Finite 10)) True s1 src1 = Inl f"
      by (simp add: readDouble_frac.simps [of result scale saw s src])
    from "1.IH" [OF rd refl refl dg inv1 this] show ?thesis .
  qed
qed

lemma readDouble_fault:
  assumes "cmd_invariant s" and "readDouble s src = Inl f"
  shows "f = StoreOutOfBounds CMD_BUF_SIZE"
proof (cases "readDouble_int (Finite 0) False s src")
  case (Inl g)
  with assms(2) have "g = f" by (simp add: readDouble_def)
  with readDouble_int_fault [OF assms(1) Inl] show ?thesis by simp
next
  case (Inr x)
  then obtain r1 w1 ch1 s1 src1 where
    1: "readDouble_int (Finite 0) False s src = Inr (r1, w1, ch1, s1, src1)"
    by (cases x) auto
  note inv1 = readDouble_int_inv [OF assms(1) 1]
  from assms(2) 1 have "readDouble_frac r1 (round_double (1 / 10)) w1 s1 src1 = Inl f"
    by (auto simp: readDouble_def split: if_splits sum.splits)
  from readDouble_frac_fault [OF inv1 this] show ?thesis .
qed

definition faults_full :: "(ESP8266HttpRead \<Rightarrow> char list \<Rightarrow> date_result) \<Rightarrow> bool" where
  "faults_full k \<longleftrightarrow>
     (\<forall>s src f. cmd_invariant s \<longrightarrow> k s src = Inl f \<longrightarrow> f = StoreOutOfBounds CMD_BUF_SIZE)"

lemma faults_fullD:
  "faults_full k \<Longrightarrow> cmd_invariant s \<Longrightarrow> k s src = Inl f \<Longrightarrow>
     f = StoreOutOfBounds CMD_BUF_SIZE"
  unfolding faults_full_def by blast

lemma faults_find:
  assumes "faults_full k"
  shows "faults_full (find_or_fail ppattern dt k)"
  unfolding faults_full_def
proof (intro allI impI)
  fix s src f
  assume inv: "cmd_invariant s"
    and r: "find_or_fail ppattern dt k s src = Inl f"
  show "f = StoreOutOfBounds CMD_BUF_SIZE"
  proof (cases "find_loop ppattern ppattern s src")
    case (Inl g)
    with r have "g = f" by (simp add: find_or_fail_def find_pattern_def)
    with find_loop_fault [OF inv Inl] show ?thesis by simp
  next
    case (Inr x)
    then obtain found s1 src1 where
      f: "find_loop ppattern ppattern s src = Inr (found, s1, src1)"
      by (cases x) auto
    note inv1 = cmd_invariant_find_loop [OF inv f]
    from r f have "k s1 src1 = Inl f"
      by (auto simp: find_or_fail_def find_pattern_def split: if_splits)
    from faults_fullD [OF assms inv1 this] show ?thesis .
  qed
qed

lemma faults_read:
  assumes "\<And>buf. faults_full (k buf)"
  shows "faults_full (read_or_fail count dt k)"
  unfolding faults_full_def
proof (intro allI impI)
  fix s src f
  assume inv: "cmd_invariant s"
    and r: "read_or_fail count dt k s src = Inl f"
  show "f = StoreOutOfBounds CMD_BUF_SIZE"
  proof (cases "read_buf count s src")
    case (Inl g)
    with r have "g = f" by (simp add: read_or_fail_def)
    with read_buf_fault [OF inv Inl] show ?thesis by simp
  next
    case (Inr x)
    then obtain ok1 buf s1 src1 where f: "read_buf count s src = Inr (ok1, buf, s1, src1)"
      by (cases x) auto
    note inv1 = cmd_invariant_read_buf [OF inv f]
    from r f have "k buf s1 src1 = Inl f"
      by (auto simp: read_or_fail_def split: if_splits)
    from faults_fullD [OF assms inv1 this] show ?thesis .
  qed
qed

lemma faults_skip:
  assumes "faults_full k"
  shows "faults_full (skip_or_fail dt k)"
  unfolding faults_full_def
proof (intro allI impI)
  fix s src f
  assume inv: "cmd_invariant s"
    and r: "skip_or_fail dt k s src = Inl f"
  show "f = StoreOutOfBounds CMD_BUF_SIZE"
  proof (cases "read s src")
    case (Inl g)
    with r have "g = f" by (simp add: skip_or_fail_def)
    with read_fault [OF inv Inl] show ?thesis by simp
  next
    case (Inr x)
    then obtain ch s1 src1 where f: "read s src = Inr (ch, s1, src1)"
      by (cases x) auto
    note inv1 = cmd_invariant_read [OF inv f]
    from r f have "k s1 src1 = Inl f"
      by (auto simp: skip_or_fail_def split: if_splits)
    from faults_fullD [OF assms inv1 this] show ?thesis .
  qed
qed

lemma faults_value:
  assumes "\<And>v. faults_full (k v)"
  shows "faults_full (value_or_fail x dt k)"
  unfolding faults_full_def
proof (intro allI impI)
  fix s src f
  assume inv: "cmd_invariant s"
    and r: "value_or_fail x dt k s src = Inl f"
  show "f = StoreOutOfBounds CMD_BUF_SIZE"
  proof (cases x)
    case None
    with r show ?thesis by (simp add: value_or_fail_def)
  next
    case (Some v)
    with r have "k v s src = Inl f" by (simp add: value_or_fail_def)
    from faults_fullD [OF assms inv this] show ?thesis .
  qed
qed

lemma faults_return:
  "faults_full (\<lambda>s src. if c then Inr (a, dt, s, src) else Inr (b, dt, s, src))"
  unfolding faults_full_def by auto

lemma findDate_fault:
  assumes "cmd_invariant s" and "findDate s src = Inl f"
  shows "f = StoreOutOfBounds CMD_BUF_SIZE"
proof -
  have "faults_full findDate"
    unfolding findDate_def Let_def
    by (intro faults_find faults_read faults_skip faults_value faults_return)
  with assms show ?thesis unfolding faults_full_def by blast
qed

lemma reachable_cmd_invariant: "reachable s \<Longrightarrow> cmd_invariant s"
proof (induction rule: reachable.induct)
  case (r_new s)
  then show ?case by (simp add: cmd_invariant_def CMD_BUF_SIZE_def)
next
  case (r_begin s t)
  show ?case by (rule cmd_invariant_begin)
next
  case (r_read s src ch s' src')
  then show ?case by (blast intro: cmd_invariant_read)
next
  case (r_read_buf s count src ok buf s' src')
  then show ?case by (blast intro: cmd_invariant_read_buf)
next
  case (r_find s ppattern src ok s' src')
  then show ?case unfolding find_pattern_def by (blast intro: cmd_invariant_find_loop)
next
  case (r_findDate s src ok dt s' src')
  then show ?case by (blast intro: cmd_invariant_findDate)
next
  case (r_readDouble s src r s' src')
  then show ?case by (blast intro: cmd_invariant_readDouble)
next
  case (r_end s)
  then show ?case by (blast intro: cmd_invariant_end)
qed

text \<open>
  C8, as the code has it. Between the calls of the operations, as long as no call has
  stored a byte outside the buffer, the read position is at most the write position, both
  are within the buffer, and they are equal whenever the recogniser is not idle: bytes
  wait to be handed out only in \<^verbatim>\<open>CMD_WAIT\<close>. An operation that is called then returns,
  to a state between calls again, or it stores a byte at index 20 of the buffer, and in
  no other way does a call leave the states that the invariant is about.
\<close>

theorem reachable_invariant:
  assumes "reachable s"
  shows "cmd_invariant s \<and>
         (\<forall>src f. read s src = Inl f \<longrightarrow> f = StoreOutOfBounds CMD_BUF_SIZE) \<and>
         (\<forall>count src f. read_buf count s src = Inl f \<longrightarrow> f = StoreOutOfBounds CMD_BUF_SIZE) \<and>
         (\<forall>ppattern src f.
            find_pattern ppattern s src = Inl f \<longrightarrow> f = StoreOutOfBounds CMD_BUF_SIZE) \<and>
         (\<forall>src f. findDate s src = Inl f \<longrightarrow> f = StoreOutOfBounds CMD_BUF_SIZE) \<and>
         (\<forall>src f. readDouble s src = Inl f \<longrightarrow> f = StoreOutOfBounds CMD_BUF_SIZE)"
proof -
  from assms have inv: "cmd_invariant s" by (rule reachable_cmd_invariant)
  show ?thesis
  proof (intro conjI allI impI)
    show "cmd_invariant s" by (rule inv)
  next
    fix src f
    assume "read s src = Inl f"
    from read_fault [OF inv this] show "f = StoreOutOfBounds CMD_BUF_SIZE" .
  next
    fix count src f
    assume "read_buf count s src = Inl f"
    from read_buf_fault [OF inv this] show "f = StoreOutOfBounds CMD_BUF_SIZE" .
  next
    fix ppattern src f
    assume "find_pattern ppattern s src = Inl f"
    then have "find_loop ppattern ppattern s src = Inl f" by (simp add: find_pattern_def)
    from find_loop_fault [OF inv this] show "f = StoreOutOfBounds CMD_BUF_SIZE" .
  next
    fix src f
    assume "findDate s src = Inl f"
    from findDate_fault [OF inv this] show "f = StoreOutOfBounds CMD_BUF_SIZE" .
  next
    fix src f
    assume "readDouble s src = Inl f"
    from readDouble_fault [OF inv this] show "f = StoreOutOfBounds CMD_BUF_SIZE" .
  qed
qed

theorem reachable_invariant_witness:
  "reachable
     \<lparr>pEsp8266Client = True, timeoutMs = 0, cmdState = CMD_WAIT,
      cmdBuf = of_char CHR 0x0A # of_char CHR ''X'' # replicate 18 0, nextIn = 2, nextOut = 1\<rparr> \<and>
   cmd_invariant
     \<lparr>pEsp8266Client = True, timeoutMs = 0, cmdState = CMD_WAIT,
      cmdBuf = of_char CHR 0x0A # of_char CHR ''X'' # replicate 18 0, nextIn = 2, nextOut = 1\<rparr> \<and>
   reachable (begin_read reader0 0) \<and>
   read (begin_read reader0 0) (CHR 0x0A # ''+IPD,123456789012345'') =
     Inl (StoreOutOfBounds CMD_BUF_SIZE)"
proof -
  let ?s1 = "\<lparr>pEsp8266Client = True, timeoutMs = 0, cmdState = CMD_WAIT,
      cmdBuf = of_char CHR 0x0A # of_char CHR ''X'' # replicate 18 0, nextIn = 2, nextOut = 1\<rparr>"
  have "read (begin_read reader0 0) (CHR 0x0A # ''XY'') = Inr (of_char CHR 0x0A, ?s1, ''Y'')"
    by (simp add: begin_read_def reader0_def read_eval eval_nat_numeral del: of_char_Char)
  from r_read [OF r_begin this] have 1: "reachable ?s1" .
  have 2: "reachable (begin_read reader0 0)" by (rule r_begin)
  have 3: "read (begin_read reader0 0) (CHR 0x0A # ''+IPD,123456789012345'') =
      Inl (StoreOutOfBounds 20)"
    by (simp add: begin_read_def reader0_def read_eval eval_nat_numeral del: of_char_Char)
  from reachable_invariant [OF 2] 3 have 4: "StoreOutOfBounds 20 = StoreOutOfBounds CMD_BUF_SIZE"
    by blast
  from reachable_invariant [OF 1] have 5: "cmd_invariant ?s1" by blast
  from 1 2 3 4 5 show ?thesis by simp
qed

text \<open>
  The claim C8 as it is stated fails after the first \<^verbatim>\<open>read\<close> of \<^verbatim>\<open>\nXY\<close>: the call
  returns the \<^verbatim>\<open>\n\<close> of the failed match, the recogniser is idle, and the \<^verbatim>\<open>X\<close> still
  waits in the buffer.
\<close>

theorem spec_invariant_counterexample:
  "read (begin_read reader0 0) (CHR 0x0A # ''XY'') =
     Inr (of_char CHR 0x0A,
          \<lparr>pEsp8266Client = True, timeoutMs = 0, cmdState = CMD_WAIT,
           cmdBuf = of_char CHR 0x0A # of_char CHR ''X'' # replicate 18 0,
           nextIn = 2, nextOut = 1\<rparr>,
          ''Y'') \<and>
   \<not> spec_invariant
     \<lparr>pEsp8266Client = True, timeoutMs = 0, cmdState = CMD_WAIT,
      cmdBuf = of_char CHR 0x0A # of_char CHR ''X'' # replicate 18 0, nextIn = 2, nextOut = 1\<rparr>"
  by (simp add: begin_read_def reader0_def read_eval eval_nat_numeral spec_invariant_def
      del: of_char_Char)

section \<open>Reading after end\<close>

text \<open>
  C7. After \<^verbatim>\<open>end()\<close>, a \<^verbatim>\<open>read()\<close> returns \<^verbatim>\<open>READ_ERROR\<close> at once and changes
  nothing: the state of the recogniser, the buffer and its two indices are those that
  \<^verbatim>\<open>end()\<close> found, and the client still holds every byte it held. As the state is
  unchanged, so does every later \<^verbatim>\<open>read()\<close>: a consumer that goes on reading is given
  no byte, and \<^verbatim>\<open>read(buf, count)\<close> fails on its first byte.
\<close>

theorem read_after_end:
  "read (end_read s) src = Inr (READ_ERROR, end_read s, src)
   \<and> cmdState (end_read s) = cmdState s
   \<and> cmdBuf (end_read s) = cmdBuf s
   \<and> nextIn (end_read s) = nextIn s
   \<and> nextOut (end_read s) = nextOut s
   \<and> read_all (end_read s) src = ([], Inr (READ_ERROR, end_read s, src))
   \<and> read_buf (Suc count) (end_read s) src = Inr (False, [], end_read s, src)"
  by (simp add: read_def end_read_def read_all.simps READ_ERROR_def)

section \<open>find, findDate and readDouble\<close>



text \<open>
  C5. On a stream that begins with \<^verbatim>\<open>Date: Fri, 21 Aug 2015 22:06:40 GMT\<close>,
  \<^verbatim>\<open>findDate\<close> returns true with day 5 of the week, the 21st of month 8 of 2015, 22 hours,
  6 minutes and 40 seconds, and has read nothing after the \<^verbatim>\<open>T\<close>. With any three bytes
  other than \<^verbatim>\<open>GMT\<close> in the place of the time zone, \<^verbatim>\<open>PST\<close> for one, it returns false:
  when the stream ends with them, whatever they are, and when more bytes follow them and
  none of the three is \<^verbatim>\<open>\n\<close> or \<^verbatim>\<open>0\<close>. The header is found as well after the status
  line \<^verbatim>\<open>HTTP/1.1 200 OK\<close> and its line end.
\<close>

theorem findDate_example:
  assumes "length (cmdBuf s) = 20"
  shows "(\<exists>s'. findDate (begin_read s t) (''Date: Fri, 21 Aug 2015 22:06:40 GMT'' @ rest) =
            Inr (True,
                 \<lparr>daySinceSunday = 5, year = 2015, month = 8, day = 21, hour = 22,
                  minute = 6, second = 40\<rparr>, s', rest)) \<and>
         (\<forall>tz. length tz = 3 \<and> tz \<noteq> ''GMT'' \<longrightarrow>
            (\<exists>dt s' src'.
               findDate (begin_read s t) (''Date: Fri, 21 Aug 2015 22:06:40 '' @ tz) =
                 Inr (False, dt, s', src'))) \<and>
         (\<forall>tz. length tz = 3 \<and> tz \<noteq> ''GMT'' \<and>
               (\<forall>c \<in> set tz. c \<noteq> CHR 0x0A \<and> c \<noteq> CHR ''0'') \<longrightarrow>
            (\<exists>dt s'.
               findDate (begin_read s t) (''Date: Fri, 21 Aug 2015 22:06:40 '' @ tz @ rest) =
                 Inr (False, dt, s', rest))) \<and>
         (\<exists>s'. findDate (begin_read s t)
            (''HTTP/1.1 200 OK'' @ [CHR 0x0D, CHR 0x0A] @
             ''Date: Fri, 21 Aug 2015 22:06:40 GMT'' @ rest) =
            Inr (True,
                 \<lparr>daySinceSunday = 5, year = 2015, month = 8, day = 21, hour = 22,
                  minute = 6, second = 40\<rparr>, s', rest))"
proof (intro conjI allI impI)
  show "\<exists>s'. findDate (begin_read s t) (''Date: Fri, 21 Aug 2015 22:06:40 GMT'' @ rest) =
            Inr (True,
                 \<lparr>daySinceSunday = 5, year = 2015, month = 8, day = 21, hour = 22,
                  minute = 6, second = 40\<rparr>, s', rest)"
    using assms by (simp add: findDate_eval del: of_char_Char)
next
  fix tz :: "char list"
  assume tz: "length tz = 3 \<and> tz \<noteq> ''GMT''"
  then obtain a b c where abc: "tz = [a, b, c]"
    by (cases tz; cases "tl tz"; cases "tl (tl tz)") auto
  with tz have ne: "[a, b, c] \<noteq> ''GMT''" by simp
  have "\<exists>dt s' src'.
      findDate (begin_read s t) (''Date: Fri, 21 Aug 2015 22:06:40 '' @ [a, b, c]) =
        Inr (False, dt, s', src')"
    using assms ne by (simp add: findDate_eval del: of_char_Char)
  with abc show "\<exists>dt s' src'.
      findDate (begin_read s t) (''Date: Fri, 21 Aug 2015 22:06:40 '' @ tz) =
        Inr (False, dt, s', src')"
    by simp
next
  fix tz :: "char list"
  assume tz: "length tz = 3 \<and> tz \<noteq> ''GMT'' \<and>
      (\<forall>c \<in> set tz. c \<noteq> CHR 0x0A \<and> c \<noteq> CHR ''0'')"
  then obtain a b c where abc: "tz = [a, b, c]"
    by (cases tz; cases "tl tz"; cases "tl (tl tz)") auto
  with tz have ne: "[a, b, c] \<noteq> ''GMT''"
    and plain: "a \<noteq> CHR 0x0A" "a \<noteq> CHR ''0''" "b \<noteq> CHR 0x0A" "b \<noteq> CHR ''0''"
      "c \<noteq> CHR 0x0A" "c \<noteq> CHR ''0''"
    by simp_all
  have "\<exists>dt s'.
      findDate (begin_read s t) (''Date: Fri, 21 Aug 2015 22:06:40 '' @ [a, b, c] @ rest) =
        Inr (False, dt, s', rest)"
    using assms ne plain by (simp add: findDate_eval del: of_char_Char)
  with abc show "\<exists>dt s'.
      findDate (begin_read s t) (''Date: Fri, 21 Aug 2015 22:06:40 '' @ tz @ rest) =
        Inr (False, dt, s', rest)"
    by simp
next
  show "\<exists>s'. findDate (begin_read s t)
            (''HTTP/1.1 200 OK'' @ [CHR 0x0D, CHR 0x0A] @
             ''Date: Fri, 21 Aug 2015 22:06:40 GMT'' @ rest) =
            Inr (True,
                 \<lparr>daySinceSunday = 5, year = 2015, month = 8, day = 21, hour = 22,
                  minute = 6, second = 40\<rparr>, s', rest)"
    using assms by (simp add: findDate_eval del: of_char_Char)
qed

theorem findDate_example_witness:
  "length (cmdBuf reader0) = 20 \<and>
   (\<exists>s'. findDate (begin_read reader0 0) (''Date: Fri, 21 Aug 2015 22:06:40 GMT'' @ []) =
            Inr (True,
                 \<lparr>daySinceSunday = 5, year = 2015, month = 8, day = 21, hour = 22,
                  minute = 6, second = 40\<rparr>, s', [])) \<and>
   length ''PST'' = 3 \<and> ''PST'' \<noteq> ''GMT'' \<and>
   (\<exists>dt s' src'.
      findDate (begin_read reader0 0) (''Date: Fri, 21 Aug 2015 22:06:40 '' @ ''PST'') =
        Inr (False, dt, s', src')) \<and>
   CHR 0x0A \<notin> set ''PST'' \<and> CHR ''0'' \<notin> set ''PST'' \<and>
   (\<exists>dt s'.
      findDate (begin_read reader0 0) (''Date: Fri, 21 Aug 2015 22:06:40 '' @ ''PST'' @ []) =
        Inr (False, dt, s', []))"
proof -
  have 1: "length (cmdBuf reader0) = 20" by (rule reader0_length)
  have 2: "length ''PST'' = 3 \<and> ''PST'' \<noteq> ''GMT''" by simp
  have 3: "CHR 0x0A \<notin> set ''PST'' \<and> CHR ''0'' \<notin> set ''PST''" by simp
  have 4: "length ''PST'' = 3 \<and> ''PST'' \<noteq> ''GMT'' \<and>
      (\<forall>c \<in> set ''PST''. c \<noteq> CHR 0x0A \<and> c \<noteq> CHR ''0'')" by simp
  from findDate_example [OF 1, of 0 "[]"] 1 2 3 4 show ?thesis by blast
qed

text \<open>
  The rounding. \<open>binade\<close> is the exponent of its argument, so that a number other than 0
  is less than \<open>2 ^ 53\<close> times its quantum. A finite \<open>round_double x\<close> is a multiple
  \<open>n * quantum x\<close> with \<open>\<bar>n\<bar> \<le> 2 ^ 53\<close>, at most half a quantum away from \<open>x\<close>, and with an
  even \<open>n\<close> when it is exactly half a quantum away; and a number that is a double already,
  \<open>n * 2 ^ k\<close> with \<open>\<bar>n\<bar> < 2 ^ 53\<close> and \<open>- 1074 \<le> k \<le> 971\<close>, is not changed. \<open>DBL_MAX\<close> is
  such a number, and a number from \<open>2 ^ 1024\<close> on is rounded to the infinity.
\<close>

lemma bits_bounds: "0 < n \<Longrightarrow> 2 ^ (bits n - 1) \<le> n \<and> n < 2 ^ bits n"
proof (induction n rule: bits.induct)
  case (1 n)
  show ?case
  proof (cases "n div 2 = 0")
    case True
    with "1.prems" have "n = 1" by (simp add: div_eq_0_iff) 
    then show ?thesis by (simp add: bits_numeral)
  next
    case False
    with "1.IH" "1.prems" have IH: "2 ^ (bits (n div 2) - 1) \<le> n div 2 \<and> n div 2 < 2 ^ bits (n div 2)"
      by simp
    from False have pos: "0 < bits (n div 2)" by (simp add: bits.simps [of "n div 2"])
    have b: "bits n = Suc (bits (n div 2))" using "1.prems" by (simp add: bits.simps [of n])
    from IH have "2 * 2 ^ (bits (n div 2) - 1) \<le> n" by linarith
    moreover from pos have "(2::nat) * 2 ^ (bits (n div 2) - 1) = 2 ^ bits (n div 2)"
      by (cases "bits (n div 2)") simp_all
    moreover from IH have "n < 2 * 2 ^ bits (n div 2)" by linarith
    ultimately show ?thesis by (simp add: b)
  qed
qed

lemma pow2_power_int: "pow2 e = power_int 2 e"
  by (simp add: pow2_def power_int_def power_inverse [symmetric] inverse_eq_divide power_one_over)

lemma pow2_pos: "0 < pow2 e"
  by (simp add: pow2_def)

lemma pow2_add: "pow2 (a + b) = pow2 a * pow2 b"
  by (simp add: pow2_power_int power_int_add)

lemma pow2_nat: "pow2 (int n) = 2 ^ n"
  by (simp add: pow2_def)

lemma pow2_minus: "pow2 (- e) = 1 / pow2 e"
  by (simp add: pow2_power_int power_int_minus inverse_eq_divide)

lemma pow2_mono: "a \<le> b \<Longrightarrow> pow2 a \<le> pow2 b"
  by (simp add: pow2_power_int power_int_increasing)

lemma bits_floor_bounds:
  assumes "1 \<le> (y :: rat)"
  shows "pow2 (int (bits (nat \<lfloor>y\<rfloor>)) - 1) \<le> y \<and> y < pow2 (int (bits (nat \<lfloor>y\<rfloor>)))"
proof -
  define n where "n = nat \<lfloor>y\<rfloor>"
  from assms have fl: "1 \<le> \<lfloor>y\<rfloor>" by simp
  then have n: "0 < n" and nf: "int n = \<lfloor>y\<rfloor>" by (simp_all add: n_def)
  from bits_bounds [OF n] have b: "2 ^ (bits n - 1) \<le> n" "n < 2 ^ bits n" by simp_all
  from n have bp: "0 < bits n" by (simp add: bits.simps [of n])
  then have e: "int (bits n) - 1 = int (bits n - 1)" by simp
  have "(2 :: rat) ^ (bits n - 1) \<le> of_nat n"
    using b(1) by (metis of_nat_le_iff of_nat_numeral of_nat_power)
  also have "(of_nat n :: rat) = of_int \<lfloor>y\<rfloor>" using nf by (metis of_int_of_nat_eq)
  also have "\<dots> \<le> y" by simp
  finally have lo: "pow2 (int (bits n) - 1) \<le> y" by (simp add: e pow2_nat)
  from b(2) have "n + 1 \<le> 2 ^ bits n" by simp
  then have "(of_nat (n + 1) :: rat) \<le> 2 ^ bits n"
    by (metis of_nat_le_iff of_nat_numeral of_nat_power)
  moreover have "y < of_int \<lfloor>y\<rfloor> + 1" by linarith
  moreover have "(of_nat (n + 1) :: rat) = of_int \<lfloor>y\<rfloor> + 1"
    using nf by (metis of_int_of_nat_eq of_nat_Suc Suc_eq_plus1 add.commute)
  ultimately have hi: "y < pow2 (int (bits n))" by (simp add: pow2_nat)
  from lo hi show ?thesis by (simp add: n_def)
qed

lemma binade_bounds:
  assumes "0 < x"
  shows "pow2 (binade x) \<le> x \<and> x < pow2 (binade x + 1)"
proof (cases "1 \<le> x")
  case True
  with bits_floor_bounds [OF True] show ?thesis by (simp add: binade_def)
next
  case False
  define k where "k = int (bits (nat \<lfloor>1 / x\<rfloor>)) - 1"
  from False assms have "1 \<le> 1 / x" by simp
  from bits_floor_bounds [OF this] have lo: "pow2 k \<le> 1 / x" and hi: "1 / x < pow2 (k + 1)"
    by (simp_all add: k_def)
  from lo assms have up: "x \<le> pow2 (- k)"
    using pow2_pos [of k] by (simp add: pow2_minus field_simps)
  have m: "pow2 (- k - 1) = 1 / pow2 (k + 1)"
    using pow2_minus [of "k + 1"] by simp
  from hi assms have "1 < pow2 (k + 1) * x"
    by (simp add: pos_divide_less_eq)
  then have dn: "pow2 (- k - 1) < x"
    unfolding m using pow2_pos [of "k + 1"] by (simp add: pos_divide_less_eq mult.commute)
  have "pow2 (- k + 1) = pow2 (- k) * pow2 1" by (rule pow2_add)
  moreover have "pow2 1 = 2" by (simp add: pow2_def)
  ultimately have step: "pow2 (- k) < pow2 (- k + 1)"
    using pow2_pos [of "- k"] by simp
  show ?thesis
  proof (cases "pow2 (- k) \<le> x")
    case True
    with False have "binade x = - k" by (simp add: binade_def k_def Let_def)
    with True up step show ?thesis by simp
  next
    case nle: False
    with False have "binade x = - k - 1" by (simp add: binade_def k_def Let_def)
    with nle dn show ?thesis by simp
  qed
qed

lemma round_even_nearest: "\<bar>of_int (round_even m) - m\<bar> \<le> 1 / 2"
proof -
  have "of_int \<lfloor>m\<rfloor> \<le> m" "m < of_int \<lfloor>m\<rfloor> + 1" by linarith+
  then show ?thesis by (auto simp: round_even_def Let_def)
qed

lemma round_even_tie: "\<bar>of_int (round_even m) - m\<bar> = 1 / 2 \<Longrightarrow> even (round_even m)"
proof -
  assume a: "\<bar>of_int (round_even m) - m\<bar> = 1 / 2"
  have f: "of_int \<lfloor>m\<rfloor> \<le> m" "m < of_int \<lfloor>m\<rfloor> + 1" by linarith+
  show ?thesis
  proof (cases "m - of_int \<lfloor>m\<rfloor> = 1 / 2")
    case True
    then show ?thesis by (auto simp: round_even_def Let_def)
  next
    case False
    with a f show ?thesis by (auto simp: round_even_def Let_def split: if_splits)
  qed
qed

lemma quantum_pos: "0 < quantum x"
  by (simp add: quantum_def pow2_pos)

lemma quantum_bound:
  assumes "x \<noteq> 0"
  shows "\<bar>x\<bar> < 2 ^ 53 * quantum x"
proof -
  define e where "e = max (binade \<bar>x\<bar>) (- 1022)"
  from assms have "0 < \<bar>x\<bar>" by simp
  from binade_bounds [OF this] have "\<bar>x\<bar> < pow2 (binade \<bar>x\<bar> + 1)" by simp
  also have "\<dots> \<le> pow2 (e + 1)" by (rule pow2_mono) (simp add: e_def)
  also have "e + 1 = 53 + (e - 52)" by simp
  also have "pow2 (53 + (e - 52)) = pow2 53 * pow2 (e - 52)" by (rule pow2_add)
  also have "pow2 53 = 2 ^ 53" by (simp add: pow2_def)
  finally show ?thesis by (simp add: quantum_def e_def)
qed

lemma round_double_nearest:
  assumes "round_double x = Finite y"
  shows "\<exists>n. y = of_int n * quantum x \<and> \<bar>n\<bar> \<le> 2 ^ 53 \<and> \<bar>y - x\<bar> \<le> quantum x / 2 \<and>
           (\<bar>y - x\<bar> = quantum x / 2 \<longrightarrow> even n)"
proof (cases "x = 0")
  case True
  with assms have "y = 0" by (simp add: round_double_def)
  with True quantum_pos [of 0] show ?thesis
    by (intro exI [of _ 0]) simp
next
  case False
  define q where "q = quantum x"
  define n where "n = round_even (x / q)"
  have q: "0 < q" by (simp add: q_def quantum_pos)
  from assms False have y: "y = of_int n * q"
    by (auto simp: round_double_def Let_def n_def q_def split: if_splits)
  have d: "y - x = (of_int n - x / q) * q"
    using q by (simp add: y field_simps)
  have a: "\<bar>y - x\<bar> = \<bar>of_int n - x / q\<bar> * q"
    using q by (simp add: d abs_mult)
  from round_even_nearest [of "x / q"] q have near: "\<bar>y - x\<bar> \<le> q / 2"
    unfolding a n_def by (simp add: field_simps)
  have tie: "even n" if "\<bar>y - x\<bar> = q / 2"
  proof -
    from that q have "\<bar>of_int n - x / q\<bar> = 1 / 2"
      unfolding a by (simp add: field_simps)
    then show ?thesis unfolding n_def by (rule round_even_tie)
  qed
  from quantum_bound [OF False] q have "\<bar>x / q\<bar> < 2 ^ 53"
    by (simp add: q_def abs_divide field_simps abs_of_pos)
  with round_even_nearest [of "x / q"] have "\<bar>(of_int n :: rat)\<bar> < 2 ^ 53 + 1"
    unfolding n_def by linarith
  then have "\<bar>(of_int n :: rat)\<bar> < of_int (2 ^ 53 + 1)" by simp
  then have "\<bar>n\<bar> < 2 ^ 53 + 1"
    by (metis of_int_abs of_int_less_iff)
  then have "\<bar>n\<bar> \<le> 2 ^ 53" by simp
  with y near tie show ?thesis unfolding q_def by blast
qed

lemma round_even_of_int: "round_even (of_int m) = m"
  by (simp add: round_even_def)

lemma pow2_less_cancel: "pow2 a \<le> v \<Longrightarrow> v < pow2 b \<Longrightarrow> a < b"
  using pow2_mono [of b a] by (cases "a < b") auto

lemma round_double_exact:
  assumes n: "\<bar>n\<bar> < 2 ^ 53" and k: "- 1074 \<le> k" "k \<le> 971"
  shows "round_double (of_int n * pow2 k) = Finite (of_int n * pow2 k)"
proof (cases "n = 0")
  case True
  then show ?thesis by (simp add: round_double_def)
next
  case False
  define x where "x = of_int n * pow2 k"
  have x0: "x \<noteq> 0" using False pow2_pos [of k] by (simp add: x_def)
  then have xp: "0 < \<bar>x\<bar>" by simp
  define e where "e = binade \<bar>x\<bar>"
  define j where "j = max e (- 1022) - 52"
  from n have "\<bar>(of_int n :: rat)\<bar> < 2 ^ 53"
    by (metis of_int_abs of_int_less_iff of_int_numeral of_int_power)
  then have "\<bar>x\<bar> < 2 ^ 53 * pow2 k"
    using pow2_pos [of k] by (simp add: x_def abs_mult abs_of_pos)
  also have "2 ^ 53 * pow2 k = pow2 (53 + k)"
    by (simp add: pow2_add) (simp add: pow2_def)
  finally have "\<bar>x\<bar> < pow2 (53 + k)" .
  with binade_bounds [OF xp] have "e < 53 + k"
    unfolding e_def by (blast intro: pow2_less_cancel)
  with k have jk: "j \<le> k" by (simp add: j_def)
  have q: "quantum x = pow2 j" by (simp add: quantum_def j_def e_def)
  have "pow2 k = pow2 (k - j) * pow2 j"
    using pow2_add [of "k - j" j] by simp
  moreover from jk have "pow2 (k - j) = of_int (2 ^ nat (k - j))"
    by (simp add: pow2_def)
  ultimately have "x = of_int (n * 2 ^ nat (k - j)) * pow2 j"
    by (simp add: x_def)
  then have "x / pow2 j = of_int (n * 2 ^ nat (k - j))"
    using pow2_pos [of j] by simp
  then have xq: "x / quantum x = of_int (n * 2 ^ nat (k - j))"
    unfolding q .
  have r: "of_int (round_even (x / quantum x)) * quantum x = x"
    unfolding xq round_even_of_int using xq quantum_pos [of x]
    by (simp add: field_simps)
  from n have "\<bar>n\<bar> \<le> 2 ^ 53 - 1" by simp
  then have "\<bar>(of_int n :: rat)\<bar> \<le> of_int (2 ^ 53 - 1)"
    by (metis of_int_abs of_int_le_iff)
  then have n': "\<bar>(of_int n :: rat)\<bar> \<le> 2 ^ 53 - 1" by simp
  from k pow2_mono [of k 971] have "pow2 k \<le> 2 ^ 971" by (simp add: pow2_def)
  with n' pow2_pos [of k] have "\<bar>x\<bar> \<le> (2 ^ 53 - 1) * 2 ^ 971"
    unfolding x_def abs_mult by (intro mult_mono) (simp_all add: abs_of_pos)
  then have "\<bar>x\<bar> \<le> DBL_MAX" by (simp add: DBL_MAX_def)
  then have "\<not> DBL_MAX < x" "\<not> x < - DBL_MAX" by linarith+
  with x0 r show ?thesis
    unfolding x_def [symmetric] by (simp add: round_double_def Let_def)
qed

lemma DBL_MAX_double: "round_double DBL_MAX = Finite DBL_MAX"
  using round_double_exact [of "2 ^ 53 - 1" 971] by (simp add: DBL_MAX_def pow2_def)

lemma round_double_overflow:
  assumes "2 ^ 1024 \<le> x"
  shows "round_double x = PInf"
proof -
  from assms have xp: "0 < x" by (rule less_le_trans [rotated]) simp
  define e where "e = binade \<bar>x\<bar>"
  define q where "q = quantum x"
  define n where "n = round_even (x / q)"
  from xp have ax: "\<bar>x\<bar> = x" by simp
  from binade_bounds [of "\<bar>x\<bar>"] xp have b: "pow2 e \<le> x" "x < pow2 (e + 1)"
    by (simp_all add: e_def)
  have "pow2 1024 = 2 ^ 1024" by (simp add: pow2_def)
  with assms b(2) have "pow2 1024 \<le> x" "x < pow2 (e + 1)" by simp_all
  then have "1024 < e + 1" by (rule pow2_less_cancel)
  then have e: "1024 \<le> e" by simp
  then have q: "q = pow2 (e - 52)" by (simp add: q_def quantum_def e_def)
  have qp: "0 < q" by (simp add: q pow2_pos)
  have "pow2 e = pow2 52 * pow2 (e - 52)" using pow2_add [of 52 "e - 52"] by simp
  also have "pow2 52 = 2 ^ 52" by (simp add: pow2_def)
  finally have "2 ^ 52 * q \<le> x" using b(1) by (simp add: q)
  with qp have m: "2 ^ 52 \<le> x / q" by (simp add: pos_le_divide_eq)
  from round_even_nearest [of "x / q"] have "x / q - 1 / 2 \<le> of_int n"
    unfolding n_def by linarith
  with m have "(2 ^ 52 - 1 :: rat) < of_int n" by linarith
  then have "(of_int (2 ^ 52 - 1) :: rat) < of_int n" by simp
  then have "2 ^ 52 - 1 < n" by (metis of_int_less_iff)
  then have "2 ^ 52 \<le> n" by simp
  then have "(of_int (2 ^ 52) :: rat) \<le> of_int n" by (metis of_int_le_iff)
  then have n52: "(2 ^ 52 :: rat) \<le> of_int n" by simp
  from e have "pow2 972 \<le> q" unfolding q by (intro pow2_mono) simp
  then have q972: "2 ^ 972 \<le> q" by (simp add: pow2_def)
  have "(2 ^ 52 :: rat) * 2 ^ 972 \<le> of_int n * q"
    using n52 q972 by (intro mult_mono) simp_all
  moreover have "DBL_MAX < 2 ^ 52 * 2 ^ 972" by (simp add: DBL_MAX_def)
  ultimately have "DBL_MAX < of_int n * q" by linarith
  with xp show ?thesis
    by (simp add: round_double_def Let_def n_def [symmetric] q_def [symmetric])
qed


text \<open>
  The sums and products of \<^verbatim>\<open>readDouble\<close> are rounded one by one, and the result is not
  always the double nearest the number that was written: on \<^verbatim>\<open>.3X\<close> it is the double
  above the one nearest \<open>3 / 10\<close>.
\<close>

lemma readDouble_rounds_each_step:
  assumes "length (cmdBuf s) = 20"
  shows "(\<exists>s'. readDouble (begin_read s t) (''.3X'' @ rest) =
            Inr (Finite (5404319552844596 / 2 ^ 54), s', rest)) \<and>
         round_double (3 / 10) = Finite (5404319552844595 / 2 ^ 54)"
  using assms by (simp add: readDouble_eval del: of_char_Char)




end
